theory Spec2Isabelle
  imports Complex_Main "HOL-Library.Signed_Division" "HOL-Library.Multiset"
begin

section \<open>The tokenized buffer of \<^verbatim>\<open>src/tokenized-buffer.js\<close>\<close>

text \<open>
  The class \<^verbatim>\<open>TokenizedBuffer\<close> keeps, for a line-oriented text buffer and a grammar, a
  cache of tokenized lines and a list of invalid rows, and re-tokenizes invalid rows in
  chunks. The text buffer, the grammar, the \<^verbatim>\<open>TokenizedLine\<close> class and the
  \<^verbatim>\<open>assert\<close> hook are collaborators that the file only calls; they are modelled by the
  observations the file makes of them.

  Rows, tags and scope ids are JavaScript numbers holding integers: \<open>int\<close>. \<open>None\<close>
  stands for a value the source finds absent, \<^verbatim>\<open>undefined\<close> or \<^verbatim>\<open>null\<close>; the two are not
  told apart.
\<close>

subsection \<open>Collaborators\<close>

text \<open>
  The text buffer, by the methods the file calls: \<^verbatim>\<open>getLineCount()\<close>, \<^verbatim>\<open>lineForRow(row)\<close>,
  \<^verbatim>\<open>lineEndingForRow(row)\<close>, \<^verbatim>\<open>isRowBlank(row)\<close>, \<^verbatim>\<open>nextNonBlankRow(row)\<close>, \<^verbatim>\<open>getPath()\<close>,
  \<^verbatim>\<open>getText()\<close>, \<^verbatim>\<open>isAlive()\<close> and the field \<^verbatim>\<open>changeCount\<close>.
\<close>

record textBuffer =
  getLineCount :: nat
  lineForRow :: "int \<Rightarrow> string"
  lineEndingForRow :: "int \<Rightarrow> string"
  isRowBlank :: "int \<Rightarrow> bool"
  nextNonBlankRow :: "int \<Rightarrow> int option"
  getPath :: string
  getText :: string
  bufferIsAlive :: bool
  bufferChangeCount :: int

text \<open>\<^verbatim>\<open>buffer.getLastRow()\<close>: the row of the last line, one less than the line count.\<close>

definition bufferLastRow :: "textBuffer \<Rightarrow> int" where
  "bufferLastRow b = int (getLineCount b) - 1"

text \<open>
  The grammar: \<^verbatim>\<open>name\<close>, \<^verbatim>\<open>scopeName\<close>, \<^verbatim>\<open>tokenizeLine(text, ruleStack, firstLine, false)\<close>
  giving \<^verbatim>\<open>{tags, ruleStack}\<close>, \<^verbatim>\<open>scopeForId\<close>, \<^verbatim>\<open>startIdForScope\<close>, \<^verbatim>\<open>endIdForScope\<close>.
  A rule stack is opaque (the type \<open>'rs\<close>) and compared by \<^verbatim>\<open>_.isEqual\<close>, structural
  equality. The fourth argument of \<^verbatim>\<open>tokenizeLine\<close> is the constant \<^verbatim>\<open>false\<close> and is left out.
\<close>

record 'rs grammar =
  name :: string
  scopeName :: string
  tokenizeLine :: "string \<Rightarrow> 'rs option \<Rightarrow> bool \<Rightarrow> int list \<times> 'rs option"
  scopeForId :: "int \<Rightarrow> string option"
  startIdForScope :: "string \<Rightarrow> int"
  endIdForScope :: "string \<Rightarrow> int"

text \<open>
  A \<^verbatim>\<open>TokenizedLine\<close>, by the properties its constructor is given here. The property \<^verbatim>\<open>text\<close> is
  named \<open>lineText\<close>. The placeholder
  line of \<^verbatim>\<open>tokenizedLineForRow\<close> is built without a rule stack: \<open>ruleStack = None\<close>.
\<close>

record 'rs tokenizedLine =
  openScopes :: "int list"
  lineText :: string
  tags :: "int list"
  ruleStack :: "'rs option"
  lineEnding :: string

text \<open>
  What the \<^verbatim>\<open>assert\<close> hook is handed when the condition is \<^verbatim>\<open>false\<close>: the message and the
  metadata that the callback attaches to the error. The hook is injected
  (\<^verbatim>\<open>params.assert\<close>); it is modelled as recording the failure and returning.
\<close>

record assertion =
  assertionMessage :: string
  grammarScopeName :: string
  unmatchedEndTag :: "string option"
  filePath :: string
  fileContents :: string

text \<open>
  What the emitter is asked to emit by the methods modelled here: \<^verbatim>\<open>did-tokenize\<close>, and
  \<^verbatim>\<open>did-invalidate-range\<close> with the start row and the end row of its range.
\<close>

datatype event = DidTokenize | DidInvalidateRange int int

subsection \<open>The scope-stack folder \<^verbatim>\<open>scopesFromTags\<close>\<close>

text \<open>
  A scope stack is a JavaScript array: \<^verbatim>\<open>push\<close> appends at the end, \<^verbatim>\<open>pop\<close> removes the last
  element and returns it, or returns \<^verbatim>\<open>undefined\<close> on the empty array.
\<close>

definition pop :: "'a list \<Rightarrow> 'a option \<times> 'a list" where
  "pop scopes = (if scopes = [] then (None, []) else (Some (last scopes), butlast scopes))"

text \<open>
  The inner \<^verbatim>\<open>while (true)\<close> of \<^verbatim>\<open>scopesFromTags\<close>: pop; leave when the popped tag is the
  matching start tag; otherwise, when the array is now empty, call \<^verbatim>\<open>assert(false, ...)\<close> and
  leave. The result is the array and whether the assertion was raised.
\<close>

function popUntilMatch :: "int list \<Rightarrow> int \<Rightarrow> int list \<times> bool" where
  "popUntilMatch scopes matchingStartTag =
     (case pop scopes of (popped, scopes') \<Rightarrow>
        if popped = Some matchingStartTag then (scopes', False)
        else if length scopes' = 0 then (scopes', True)
        else popUntilMatch scopes' matchingStartTag)"
  by pat_completeness auto
termination
  by (relation "measure (\<lambda>(scopes, m). length scopes)")
     (auto simp: pop_def split: if_splits)

declare popUntilMatch.simps [simp del]

definition unmatchedEndTagAssertion :: "'rs grammar \<Rightarrow> textBuffer \<Rightarrow> int \<Rightarrow> assertion" where
  "unmatchedEndTagAssertion g b tag =
     \<lparr> assertionMessage = ''Encountered an unmatched scope end tag.'',
       grammarScopeName = scopeName g,
       unmatchedEndTag = scopeForId g tag,
       filePath = getPath b,
       fileContents = getText b \<rparr>"

text \<open>
  The body of \<^verbatim>\<open>for (const tag of tags)\<close>. \<^verbatim>\<open>tag % 2\<close> is JavaScript's remainder, which
  takes the sign of the dividend: \<open>smod\<close>.
\<close>

definition scopesStep ::
  "'rs grammar \<Rightarrow> textBuffer \<Rightarrow> int list \<times> assertion list \<Rightarrow> int \<Rightarrow> int list \<times> assertion list" where
  "scopesStep g b acc tag =
     (case acc of (scopes, failures) \<Rightarrow>
        if tag < 0 then
          if tag smod 2 = - 1 then (scopes @ [tag], failures)
          else
            (case popUntilMatch scopes (tag + 1) of (scopes', failed) \<Rightarrow>
               (scopes', if failed then failures @ [unmatchedEndTagAssertion g b tag] else failures))
        else (scopes, failures))"

text \<open>
  \<^verbatim>\<open>scopesFromTags(startingScopes, tags)\<close>: the returned array, and the assertion failures
  reported on the way, in order.
\<close>

definition scopesFromTags ::
  "'rs grammar \<Rightarrow> textBuffer \<Rightarrow> int list \<Rightarrow> int list \<Rightarrow> int list \<times> assertion list" where
  "scopesFromTags g b startingScopes tgs = foldl (scopesStep g b) (startingScopes, []) tgs"

subsection \<open>\<^verbatim>\<open>scopesFromTags\<close> on a store of arrays\<close>

text \<open>
  For the question of which array is written, arrays live in a store: a map from
  addresses to arrays and the next free address. \<^verbatim>\<open>startingScopes.slice()\<close> allocates a
  copy; \<^verbatim>\<open>push\<close> and \<^verbatim>\<open>pop\<close> write the array they are called on.
\<close>

record store =
  cells :: "nat \<Rightarrow> int list"
  nextAddr :: nat

definition slice :: "store \<Rightarrow> nat \<Rightarrow> store \<times> nat" where
  "slice h a =
     (h\<lparr>cells := (cells h)(nextAddr h := cells h a), nextAddr := Suc (nextAddr h)\<rparr>, nextAddr h)"

definition pushAt :: "store \<Rightarrow> nat \<Rightarrow> int \<Rightarrow> store" where
  "pushAt h a v = h\<lparr>cells := (cells h)(a := cells h a @ [v])\<rparr>"

definition popAt :: "store \<Rightarrow> nat \<Rightarrow> int option \<times> store" where
  "popAt h a =
     (case pop (cells h a) of (popped, rest) \<Rightarrow> (popped, h\<lparr>cells := (cells h)(a := rest)\<rparr>))"

function popUntilMatchAt :: "store \<Rightarrow> nat \<Rightarrow> int \<Rightarrow> store \<times> bool" where
  "popUntilMatchAt h a matchingStartTag =
     (case popAt h a of (popped, h') \<Rightarrow>
        if popped = Some matchingStartTag then (h', False)
        else if length (cells h' a) = 0 then (h', True)
        else popUntilMatchAt h' a matchingStartTag)"
  by pat_completeness auto
termination
  by (relation "measure (\<lambda>(h, a, m). length (cells h a))")
     (auto simp: popAt_def pop_def split: if_splits)

declare popUntilMatchAt.simps [simp del]

definition scopesStepAt ::
  "'rs grammar \<Rightarrow> textBuffer \<Rightarrow> nat \<Rightarrow> store \<times> assertion list \<Rightarrow> int \<Rightarrow> store \<times> assertion list" where
  "scopesStepAt g b a acc tag =
     (case acc of (h, failures) \<Rightarrow>
        if tag < 0 then
          if tag smod 2 = - 1 then (pushAt h a tag, failures)
          else
            (case popUntilMatchAt h a (tag + 1) of (h', failed) \<Rightarrow>
               (h', if failed then failures @ [unmatchedEndTagAssertion g b tag] else failures))
        else (h, failures))"

text \<open>
  \<^verbatim>\<open>scopesFromTags\<close> with \<^verbatim>\<open>startingScopes\<close> the array at address \<open>a\<close>: the store afterwards,
  the address of the returned array, and the failures.
\<close>

definition scopesFromTagsAt ::
  "'rs grammar \<Rightarrow> textBuffer \<Rightarrow> store \<Rightarrow> nat \<Rightarrow> int list \<Rightarrow> store \<times> nat \<times> assertion list" where
  "scopesFromTagsAt g b h a tgs =
     (case slice h a of (h0, scopes) \<Rightarrow>
        (case foldl (scopesStepAt g b scopes) (h0, []) tgs of (h', failures) \<Rightarrow>
           (h', scopes, failures)))"

subsection \<open>The state of a tokenized buffer\<close>

text \<open>
  The fields of the instance that the modelled methods read or write. \<^verbatim>\<open>chunkSize\<close> is read
  by \<^verbatim>\<open>tokenizeNextChunk\<close> and \<^verbatim>\<open>buildTokenizedLinesForRows\<close> and assigned nowhere in the
  file: it is a field whose value is given. \<open>emitted\<close> is what the emitter has been asked to
  emit, in order. \<^verbatim>\<open>tokenizedLines\<close> is an array whose slots may be empty.
\<close>

record 'rs tokenizedBuffer =
  buffer :: textBuffer
  grammar :: "'rs grammar"
  tabLength :: int
  largeFileMode :: bool
  alive :: bool
  visible :: bool
  pendingChunk :: bool
  fullyTokenized :: bool
  chunkSize :: int
  changeCount :: int
  tokenizedLines :: "'rs tokenizedLine option list"
  invalidRows :: "int list"
  emitted :: "event list"

text \<open>
  Reading \<^verbatim>\<open>array[row]\<close>: an index outside the array reads \<^verbatim>\<open>undefined\<close>, as an empty slot does.
\<close>

definition lineAt :: "'a option list \<Rightarrow> int \<Rightarrow> 'a option" where
  "lineAt ls row = (if 0 \<le> row \<and> row < int (length ls) then ls ! nat row else None)"

text \<open>
  Writing \<^verbatim>\<open>array[row] = v\<close>: an index at or beyond the length extends the array with empty
  slots. A negative index would set a property that is not an element; the file writes
  rows from 0 on only, and the model leaves the array as it is there.
\<close>

definition setLineAt :: "'a option list \<Rightarrow> int \<Rightarrow> 'a \<Rightarrow> 'a option list" where
  "setLineAt ls row v =
     (if row < 0 then ls
      else if row < int (length ls) then ls[nat row := Some v]
      else ls @ replicate (nat row - length ls) None @ [Some v])"

text \<open>
  \<^verbatim>\<open>_.spliceWithArray(array, start, length, items)\<close>, that is \<^verbatim>\<open>array.splice(start, length,
  ...items)\<close>: a negative start counts from the end, the start is clamped to the array and
  the delete count to what is left.
\<close>

definition spliceWithArray :: "'a list \<Rightarrow> int \<Rightarrow> int \<Rightarrow> 'a list \<Rightarrow> 'a list" where
  "spliceWithArray ls start deleteCount items =
     (let len = int (length ls);
          actualStart = (if start < 0 then max (len + start) 0 else min start len);
          actualDeleteCount = min (max deleteCount 0) (len - actualStart)
      in take (nat actualStart) ls @ items @ drop (nat (actualStart + actualDeleteCount)) ls)"

definition getLastRow :: "'rs tokenizedBuffer \<Rightarrow> int" where
  "getLastRow tb = bufferLastRow (buffer tb)"

definition stackForRow :: "'rs tokenizedBuffer \<Rightarrow> int \<Rightarrow> 'rs option" where
  "stackForRow tb bufferRow =
     (case lineAt (tokenizedLines tb) bufferRow of None \<Rightarrow> None | Some l \<Rightarrow> ruleStack l)"

text \<open>
  The engine keeps the array that \<^verbatim>\<open>scopesFromTags\<close> returns; what the assert hook was told
  is the second component of \<open>scopesFromTags\<close> and is not stored in the buffer's state.
\<close>

definition openScopesForRow :: "'rs tokenizedBuffer \<Rightarrow> int \<Rightarrow> int list" where
  "openScopesForRow tb bufferRow =
     (case lineAt (tokenizedLines tb) (bufferRow - 1) of
        Some precedingLine \<Rightarrow>
          fst (scopesFromTags (grammar tb) (buffer tb) (openScopes precedingLine) (tags precedingLine))
      | None \<Rightarrow> [])"

text \<open>
  \<^verbatim>\<open>buildTokenizedLineForRowWithText\<close>: a default parameter takes its default when the
  argument is \<^verbatim>\<open>undefined\<close>, so an absent \<^verbatim>\<open>currentRuleStack\<close> is replaced by
  \<^verbatim>\<open>this.stackForRow(row - 1)\<close>. Every caller passes \<^verbatim>\<open>openScopes\<close>.
\<close>

definition buildTokenizedLineForRowWithText ::
  "'rs tokenizedBuffer \<Rightarrow> int \<Rightarrow> string \<Rightarrow> 'rs option \<Rightarrow> int list \<Rightarrow> 'rs tokenizedLine" where
  "buildTokenizedLineForRowWithText tb row txt currentRuleStack scopes =
     (let currentRuleStack' =
            (case currentRuleStack of None \<Rightarrow> stackForRow tb (row - 1) | Some s \<Rightarrow> Some s);
          ending = lineEndingForRow (buffer tb) row
      in case tokenizeLine (grammar tb) txt currentRuleStack' (row = 0) of
           (tgs, stack) \<Rightarrow>
             \<lparr> openScopes = scopes, lineText = txt, tags = tgs, ruleStack = stack,
               lineEnding = ending \<rparr>)"

definition buildTokenizedLineForRow ::
  "'rs tokenizedBuffer \<Rightarrow> int \<Rightarrow> 'rs option \<Rightarrow> int list \<Rightarrow> 'rs tokenizedLine" where
  "buildTokenizedLineForRow tb row stack scopes =
     buildTokenizedLineForRowWithText tb row (lineForRow (buffer tb) row) stack scopes"

subsection \<open>Invalid rows and the background scheduler\<close>

definition firstInvalidRow :: "'rs tokenizedBuffer \<Rightarrow> int option" where
  "firstInvalidRow tb = (case invalidRows tb of [] \<Rightarrow> None | r # rs \<Rightarrow> Some r)"

text \<open>
  \<^verbatim>\<open>tokenizeInBackground\<close> sets \<^verbatim>\<open>pendingChunk\<close> and defers a callback; the callback is
  \<open>deferredChunk\<close> below, run by the event loop at a later turn.
\<close>

definition tokenizeInBackground :: "'rs tokenizedBuffer \<Rightarrow> 'rs tokenizedBuffer" where
  "tokenizeInBackground tb =
     (if \<not> visible tb \<or> pendingChunk tb \<or> \<not> alive tb then tb else tb\<lparr>pendingChunk := True\<rparr>)"

definition markTokenizationComplete :: "'rs tokenizedBuffer \<Rightarrow> 'rs tokenizedBuffer" where
  "markTokenizationComplete tb =
     (let tb1 = (if \<not> fullyTokenized tb then tb\<lparr>emitted := emitted tb @ [DidTokenize]\<rparr> else tb)
      in tb1\<lparr>fullyTokenized := True\<rparr>)"

text \<open>\<^verbatim>\<open>while (this.invalidRows[0] <= row) this.invalidRows.shift()\<close>\<close>

definition validateRow :: "'rs tokenizedBuffer \<Rightarrow> int \<Rightarrow> 'rs tokenizedBuffer" where
  "validateRow tb row = tb\<lparr>invalidRows := dropWhile (\<lambda>r. r \<le> row) (invalidRows tb)\<rparr>"

text \<open>\<^verbatim>\<open>push\<close>, then \<^verbatim>\<open>sort((a, b) => a - b)\<close>, the ascending numeric order.\<close>

definition invalidateRow :: "'rs tokenizedBuffer \<Rightarrow> int \<Rightarrow> 'rs tokenizedBuffer" where
  "invalidateRow tb row = tokenizeInBackground (tb\<lparr>invalidRows := sort (invalidRows tb @ [row])\<rparr>)"

text \<open>
  The callback of \<^verbatim>\<open>updateInvalidRows\<close>. Its three tests are exhaustive on integers; a path
  through all three would return \<^verbatim>\<open>undefined\<close>, written \<open>None\<close>.
\<close>

definition rebaseRow :: "int \<Rightarrow> int \<Rightarrow> int \<Rightarrow> int \<Rightarrow> int option" where
  "rebaseRow start end delta row =
     (if row < start then Some row
      else if start \<le> row \<and> row \<le> end then Some (end + delta + 1)
      else if row > end then Some (row + delta)
      else None)"

definition updateInvalidRows :: "'rs tokenizedBuffer \<Rightarrow> int \<Rightarrow> int \<Rightarrow> int \<Rightarrow> 'rs tokenizedBuffer" where
  "updateInvalidRows tb start end delta =
     tb\<lparr>invalidRows := map (\<lambda>row. the (rebaseRow start end delta row)) (invalidRows tb)\<rparr>"

subsection \<open>\<^verbatim>\<open>tokenizeNextChunk\<close>\<close>

text \<open>
  The inner \<^verbatim>\<open>while (true)\<close>, from \<open>row\<close> on, with the \<^verbatim>\<open>rowsRemaining\<close> it starts with. It
  returns the state, \<^verbatim>\<open>endRow\<close>, \<^verbatim>\<open>filledRegion\<close> and the \<^verbatim>\<open>rowsRemaining\<close> it ends with; \<open>None\<close>
  is a loop that never leaves.
\<close>

partial_function (option) tokenizeRegion ::
  "'rs tokenizedBuffer \<Rightarrow> int \<Rightarrow> int \<Rightarrow> int \<Rightarrow> ('rs tokenizedBuffer \<times> int \<times> bool \<times> int) option" where
  "tokenizeRegion tb lastRow row rowsRemaining =
     (let previousStack = stackForRow tb row;
          tb' = tb\<lparr>tokenizedLines :=
                    setLineAt (tokenizedLines tb) row
                      (buildTokenizedLineForRow tb row (stackForRow tb (row - 1))
                         (openScopesForRow tb row))\<rparr>;
          rowsRemaining' = rowsRemaining - 1
      in if rowsRemaining' = 0 then Some (tb', row, False, rowsRemaining')
         else if row = lastRow \<or> stackForRow tb' row = previousStack
           then Some (tb', row, True, rowsRemaining')
         else tokenizeRegion tb' lastRow (row + 1) rowsRemaining')"

text \<open>
  The outer \<^verbatim>\<open>while (this.firstInvalidRow() != null && rowsRemaining > 0)\<close>. It returns the
  state and the \<^verbatim>\<open>rowsRemaining\<close> it ends with.
\<close>

partial_function (option) tokenizeRegions ::
  "'rs tokenizedBuffer \<Rightarrow> int \<Rightarrow> ('rs tokenizedBuffer \<times> int) option" where
  "tokenizeRegions tb rowsRemaining =
     (case invalidRows tb of
        [] \<Rightarrow> Some (tb, rowsRemaining)
      | startRow # rest \<Rightarrow>
          if rowsRemaining > 0 then
            (let tb1 = tb\<lparr>invalidRows := rest\<rparr>;
                 lastRow = getLastRow tb1
             in if startRow > lastRow then tokenizeRegions tb1 rowsRemaining
                else
                  (case tokenizeRegion tb1 lastRow startRow rowsRemaining of
                     None \<Rightarrow> None
                   | Some (tb2, endRow, filledRegion, rowsRemaining') \<Rightarrow>
                       (let tb3 = validateRow tb2 endRow;
                            tb4 = (if \<not> filledRegion then invalidateRow tb3 (endRow + 1) else tb3);
                            tb5 = tb4\<lparr>emitted :=
                                        emitted tb4 @ [DidInvalidateRange startRow (endRow + 1)]\<rparr>
                        in tokenizeRegions tb5 rowsRemaining')))
          else Some (tb, rowsRemaining))"

declare tokenizeRegion.simps [code] tokenizeRegions.simps [code]

definition tokenizeNextChunk :: "'rs tokenizedBuffer \<Rightarrow> 'rs tokenizedBuffer option" where
  "tokenizeNextChunk tb =
     (case tokenizeRegions tb (chunkSize tb) of
        None \<Rightarrow> None
      | Some (tb', rowsRemaining) \<Rightarrow>
          Some (if firstInvalidRow tb' \<noteq> None then tokenizeInBackground tb'
                else markTokenizationComplete tb'))"


text \<open>The callback that \<^verbatim>\<open>tokenizeInBackground\<close> defers.\<close>

definition deferredChunk :: "'rs tokenizedBuffer \<Rightarrow> 'rs tokenizedBuffer option" where
  "deferredChunk tb =
     (let tb1 = tb\<lparr>pendingChunk := False\<rparr>
      in if alive tb1 \<and> bufferIsAlive (buffer tb1) then tokenizeNextChunk tb1 else Some tb1)"

text \<open>\<open>n\<close> invocations of \<^verbatim>\<open>tokenizeNextChunk\<close>, one after the other.\<close>

fun tokenizeNextChunks :: "nat \<Rightarrow> 'rs tokenizedBuffer \<Rightarrow> 'rs tokenizedBuffer option" where
  "tokenizeNextChunks 0 tb = Some tb"
| "tokenizeNextChunks (Suc n) tb =
     (case tokenizeNextChunk tb of None \<Rightarrow> None | Some tb' \<Rightarrow> tokenizeNextChunks n tb')"

subsection \<open>Reset, edits and on-demand lines\<close>

text \<open>
  \<^verbatim>\<open>retokenizeLines\<close>: the three assignments after the \<^verbatim>\<open>alive\<close> test are \<open>resetLines\<close>;
  \<^verbatim>\<open>new Array(n)\<close> is \<open>n\<close> empty slots.
\<close>

definition resetLines :: "'rs tokenizedBuffer \<Rightarrow> 'rs tokenizedBuffer" where
  "resetLines tb =
     tb\<lparr>fullyTokenized := False,
        tokenizedLines := replicate (getLineCount (buffer tb)) None,
        invalidRows := []\<rparr>"

definition retokenizeLines :: "'rs tokenizedBuffer \<Rightarrow> 'rs tokenizedBuffer" where
  "retokenizeLines tb =
     (if \<not> alive tb then tb
      else
        (let tb1 = resetLines tb
         in if largeFileMode tb1 \<or> name (grammar tb1) = ''Null Grammar''
            then markTokenizationComplete tb1
            else invalidateRow tb1 0))"

text \<open>\<^verbatim>\<open>destroy\<close>; \<^verbatim>\<open>this.tokenizedLines.length = 0\<close> empties the array.\<close>

definition destroy :: "'rs tokenizedBuffer \<Rightarrow> 'rs tokenizedBuffer" where
  "destroy tb = (if \<not> alive tb then tb else tb\<lparr>alive := False, tokenizedLines := []\<rparr>)"

definition setVisible :: "'rs tokenizedBuffer \<Rightarrow> bool \<Rightarrow> 'rs tokenizedBuffer" where
  "setVisible tb v =
     (let tb1 = tb\<lparr>visible := v\<rparr>
      in if visible tb1 \<and> name (grammar tb1) \<noteq> ''Null Grammar'' \<and> \<not> largeFileMode tb1
         then tokenizeInBackground tb1 else tb1)"

text \<open>
  The loop of \<^verbatim>\<open>buildTokenizedLinesForRows\<close>, from \<open>row\<close> to \<open>endRow\<close>, with the local
  \<^verbatim>\<open>ruleStack\<close> and \<^verbatim>\<open>openScopes\<close>. A rule stack is truthy when it is there.
\<close>

function buildRows ::
  "'rs tokenizedBuffer \<Rightarrow> int \<Rightarrow> int \<Rightarrow> int \<Rightarrow> 'rs option \<Rightarrow> int list \<Rightarrow> 'rs tokenizedLine option list" where
  "buildRows tb stopTokenizingAt row endRow stack scopes =
     (if row \<le> endRow then
        (if (stack \<noteq> None \<or> row = 0) \<and> row < stopTokenizingAt then
           (let tokenizedLine = buildTokenizedLineForRow tb row stack scopes;
                stack' = ruleStack tokenizedLine;
                scopes' = fst (scopesFromTags (grammar tb) (buffer tb) scopes (tags tokenizedLine))
            in Some tokenizedLine # buildRows tb stopTokenizingAt (row + 1) endRow stack' scopes')
         else None # buildRows tb stopTokenizingAt (row + 1) endRow stack scopes)
      else [])"
  by pat_completeness auto
termination
  by (relation "measure (\<lambda>(tb, stopAt, row, endRow, stack, scopes). nat (endRow + 1 - row))") auto

declare buildRows.simps [simp del]

definition buildTokenizedLinesForRows ::
  "'rs tokenizedBuffer \<Rightarrow> int \<Rightarrow> int \<Rightarrow> 'rs option \<Rightarrow> int list
     \<Rightarrow> 'rs tokenizedLine option list \<times> 'rs tokenizedBuffer" where
  "buildTokenizedLinesForRows tb startRow endRow startingStack startingopenScopes =
     (let stopTokenizingAt = startRow + chunkSize tb;
          newLines = buildRows tb stopTokenizingAt startRow endRow startingStack startingopenScopes;
          tb' = (if endRow \<ge> stopTokenizingAt
                 then tokenizeInBackground (invalidateRow tb stopTokenizingAt) else tb)
      in (newLines, tb'))"

text \<open>The change event of the buffer: \<^verbatim>\<open>{oldRange, newRange}\<close>, ranges of points.\<close>

record point =
  pointRow :: int
  pointColumn :: int

record range =
  rangeStart :: point
  rangeEnd :: point

record changeEvent =
  oldRange :: range
  newRange :: range

text \<open>
  \<^verbatim>\<open>bufferDidChange(e)\<close>. The buffer has changed when it is called: \<open>buffer tb\<close> is the buffer
  after the change. \<^verbatim>\<open>new Array(newLineCount)\<close> is \<open>newLineCount\<close> empty slots; the new range of
  a change ends at or after its start, so \<open>newLineCount\<close> is at least 1.
\<close>

definition bufferDidChange :: "'rs tokenizedBuffer \<Rightarrow> changeEvent \<Rightarrow> 'rs tokenizedBuffer" where
  "bufferDidChange tb e =
     (let tb0 = tb\<lparr>changeCount := bufferChangeCount (buffer tb)\<rparr>;
          start = pointRow (rangeStart (oldRange e));
          end = pointRow (rangeEnd (oldRange e));
          delta = pointRow (rangeEnd (newRange e)) - pointRow (rangeEnd (oldRange e));
          oldLineCount = pointRow (rangeEnd (oldRange e)) - pointRow (rangeStart (oldRange e)) + 1;
          newLineCount = pointRow (rangeEnd (newRange e)) - pointRow (rangeStart (newRange e)) + 1;
          tb1 = updateInvalidRows tb0 start end delta;
          previousEndStack = stackForRow tb1 end
      in if largeFileMode tb1 \<or> name (grammar tb1) = ''Null Grammar'' then
           tb1\<lparr>tokenizedLines :=
                 spliceWithArray (tokenizedLines tb1) start oldLineCount
                   (replicate (nat newLineCount) None)\<rparr>
         else
           (case buildTokenizedLinesForRows tb1 start (end + delta) (stackForRow tb1 (start - 1))
                   (openScopesForRow tb1 start) of
              (newTokenizedLines, tb2) \<Rightarrow>
                (let tb3 = tb2\<lparr>tokenizedLines :=
                                  spliceWithArray (tokenizedLines tb2) start oldLineCount
                                    newTokenizedLines\<rparr>;
                     newEndStack = stackForRow tb3 (end + delta)
                 in if newEndStack \<noteq> None \<and> newEndStack \<noteq> previousEndStack
                    then invalidateRow tb3 (end + delta + 1) else tb3)))"

text \<open>
  \<^verbatim>\<open>tokenizedLineForRow(bufferRow)\<close>: what it returns (\<open>None\<close> for \<^verbatim>\<open>undefined\<close>) and the state
  afterwards. \<^verbatim>\<open>text.length\<close> is the length of the line.
\<close>

definition placeholderLine :: "'rs tokenizedBuffer \<Rightarrow> int \<Rightarrow> 'rs tokenizedLine" where
  "placeholderLine tb bufferRow =
     (let txt = lineForRow (buffer tb) bufferRow;
          ending = lineEndingForRow (buffer tb) bufferRow;
          tgs = [startIdForScope (grammar tb) (scopeName (grammar tb)),
                 int (length txt),
                 endIdForScope (grammar tb) (scopeName (grammar tb))]
      in \<lparr> openScopes = [], lineText = txt, tags = tgs, ruleStack = None, lineEnding = ending \<rparr>)"

definition tokenizedLineForRow ::
  "'rs tokenizedBuffer \<Rightarrow> int \<Rightarrow> 'rs tokenizedLine option \<times> 'rs tokenizedBuffer" where
  "tokenizedLineForRow tb bufferRow =
     (if bufferRow \<ge> 0 \<and> bufferRow \<le> bufferLastRow (buffer tb) then
        (case lineAt (tokenizedLines tb) bufferRow of
           Some tokenizedLine \<Rightarrow> (Some tokenizedLine, tb)
         | None \<Rightarrow>
             (let tb' = tb\<lparr>tokenizedLines :=
                              setLineAt (tokenizedLines tb) bufferRow (placeholderLine tb bufferRow)\<rparr>
              in (lineAt (tokenizedLines tb') bufferRow, tb')))
      else (None, tb))"

subsection \<open>Queries\<close>

text \<open>
  Calling a method on \<^verbatim>\<open>undefined\<close>, or destructuring it, throws a \<^verbatim>\<open>TypeError\<close>. A query
  returns what the source returns, or the error it throws, and the state afterwards.
\<close>

datatype error = TypeError

text \<open>
  \<^verbatim>\<open>tokenForPosition\<close> and \<^verbatim>\<open>tokenStartPositionForPosition\<close>. The methods
  \<^verbatim>\<open>tokenAtBufferColumn\<close> and \<^verbatim>\<open>tokenStartColumnForBufferColumn\<close> belong to \<^verbatim>\<open>TokenizedLine\<close> and
  are parameters.
\<close>

definition tokenForPosition ::
  "('rs tokenizedLine \<Rightarrow> int \<Rightarrow> 'tok) \<Rightarrow> 'rs tokenizedBuffer \<Rightarrow> point
     \<Rightarrow> (error + 'tok) \<times> 'rs tokenizedBuffer" where
  "tokenForPosition tokenAtBufferColumn tb position =
     (case tokenizedLineForRow tb (pointRow position) of
        (None, tb') \<Rightarrow> (Inl TypeError, tb')
      | (Some l, tb') \<Rightarrow> (Inr (tokenAtBufferColumn l (pointColumn position)), tb'))"

definition tokenStartPositionForPosition ::
  "('rs tokenizedLine \<Rightarrow> int \<Rightarrow> int) \<Rightarrow> 'rs tokenizedBuffer \<Rightarrow> point
     \<Rightarrow> (error + point) \<times> 'rs tokenizedBuffer" where
  "tokenStartPositionForPosition tokenStartColumnForBufferColumn tb position =
     (case tokenizedLineForRow tb (pointRow position) of
        (None, tb') \<Rightarrow> (Inl TypeError, tb')
      | (Some l, tb') \<Rightarrow>
          (Inr \<lparr> pointRow = pointRow position,
                 pointColumn = tokenStartColumnForBufferColumn l (pointColumn position) \<rparr>, tb'))"

text \<open>\<^verbatim>\<open>string.split('.')\<close>: the pieces between the separators, at least one.\<close>

fun splitOn :: "char \<Rightarrow> string \<Rightarrow> string list" where
  "splitOn c [] = [[]]"
| "splitOn c (x # xs) =
     (if x = c then [] # splitOn c xs
      else (case splitOn c xs of [] \<Rightarrow> [[x]] | piece # pieces \<Rightarrow> (x # piece) # pieces))"

text \<open>\<^verbatim>\<open>_.isSubset(a, b)\<close>: every element of \<open>a\<close> is included in \<open>b\<close>.\<close>

definition isSubset :: "'a list \<Rightarrow> 'a list \<Rightarrow> bool" where
  "isSubset potentialSubset potentialSuperset =
     list_all (\<lambda>element. element \<in> set potentialSuperset) potentialSubset"

text \<open>
  \<^verbatim>\<open>scopes.some(...)\<close> in \<^verbatim>\<open>selectorMatchesAnyScope\<close>: the scopes in order, up to the first
  that matches. A scope is what \<^verbatim>\<open>scopeForId\<close> returned; \<^verbatim>\<open>scope.split\<close> on an absent one throws.
\<close>

fun someScopeMatches :: "string list \<Rightarrow> string option list \<Rightarrow> error + bool" where
  "someScopeMatches targetClasses [] = Inr False"
| "someScopeMatches targetClasses (None # scopes) = Inl TypeError"
| "someScopeMatches targetClasses (Some scope # scopes) =
     (if isSubset targetClasses (splitOn CHR ''.'' scope) then Inr True
      else someScopeMatches targetClasses scopes)"

text \<open>\<^verbatim>\<open>selector.replace(/^\./, '')\<close> removes one leading dot.\<close>

definition selectorMatchesAnyScope :: "string \<Rightarrow> string option list \<Rightarrow> error + bool" where
  "selectorMatchesAnyScope selector scopes =
     (let targetClasses =
            splitOn CHR ''.'' (case selector of c # cs \<Rightarrow> if c = CHR ''.'' then cs else selector
                                | [] \<Rightarrow> selector)
      in someScopeMatches targetClasses scopes)"

text \<open>
  The first loop of \<^verbatim>\<open>bufferRangeForScopeAtPosition\<close>, over the tags from \<^verbatim>\<open>tokenIndex\<close> on. It
  returns \<^verbatim>\<open>tokenIndex\<close>, \<^verbatim>\<open>scopes\<close>, \<^verbatim>\<open>startColumn\<close> and \<^verbatim>\<open>endColumn\<close>; \<^verbatim>\<open>endColumn\<close> is \<open>None\<close>
  as long as it has not been assigned a number.
\<close>

fun scanToColumn ::
  "'rs grammar \<Rightarrow> int \<Rightarrow> int list \<Rightarrow> nat \<Rightarrow> string option list \<Rightarrow> int \<Rightarrow> int option
     \<Rightarrow> nat \<times> string option list \<times> int \<times> int option" where
  "scanToColumn g col [] tokenIndex scopes startColumn endColumn =
     (tokenIndex, scopes, startColumn, endColumn)"
| "scanToColumn g col (tag # rest) tokenIndex scopes startColumn endColumn =
     (if tag < 0 then
        (if tag smod 2 = - 1
         then scanToColumn g col rest (Suc tokenIndex) (scopes @ [scopeForId g tag]) startColumn endColumn
         else scanToColumn g col rest (Suc tokenIndex) (snd (pop scopes)) startColumn endColumn)
      else
        (let endColumn' = startColumn + tag
         in if endColumn' \<ge> col then (tokenIndex, scopes, startColumn, Some endColumn')
            else scanToColumn g col rest (Suc tokenIndex) scopes endColumn' (Some endColumn')))"

text \<open>The second loop, over the tags before \<^verbatim>\<open>tokenIndex\<close>, last first; it returns \<^verbatim>\<open>startColumn\<close>.\<close>

fun expandStart ::
  "'rs grammar \<Rightarrow> string \<Rightarrow> int list \<Rightarrow> string option list \<Rightarrow> int \<Rightarrow> error + int" where
  "expandStart g selector [] startScopes startColumn = Inr startColumn"
| "expandStart g selector (tag # rest) startScopes startColumn =
     (if tag < 0 then
        (if tag smod 2 = - 1
         then expandStart g selector rest (snd (pop startScopes)) startColumn
         else expandStart g selector rest (startScopes @ [scopeForId g tag]) startColumn)
      else
        (case selectorMatchesAnyScope selector startScopes of
           Inl err \<Rightarrow> Inl err
         | Inr matches \<Rightarrow>
             if \<not> matches then Inr startColumn
             else expandStart g selector rest startScopes (startColumn - tag)))"

text \<open>
  The third loop, over the tags after \<^verbatim>\<open>tokenIndex\<close>; it returns \<^verbatim>\<open>endColumn\<close>. Adding to an
  \<^verbatim>\<open>endColumn\<close> that is not a number leaves it not a number.
\<close>

fun expandEnd ::
  "'rs grammar \<Rightarrow> string \<Rightarrow> int list \<Rightarrow> string option list \<Rightarrow> int option \<Rightarrow> error + int option" where
  "expandEnd g selector [] endScopes endColumn = Inr endColumn"
| "expandEnd g selector (tag # rest) endScopes endColumn =
     (if tag < 0 then
        (if tag smod 2 = - 1
         then expandEnd g selector rest (endScopes @ [scopeForId g tag]) endColumn
         else expandEnd g selector rest (snd (pop endScopes)) endColumn)
      else
        (case selectorMatchesAnyScope selector endScopes of
           Inl err \<Rightarrow> Inl err
         | Inr matches \<Rightarrow>
             if \<not> matches then Inr endColumn
             else expandEnd g selector rest endScopes (map_option (\<lambda>c. c + tag) endColumn)))"

text \<open>
  \<^verbatim>\<open>bufferRangeForScopeAtPosition(selector, position)\<close>: \<open>Inr None\<close> is the plain
  \<^verbatim>\<open>return\<close>, \<open>Inr (Some (row, startColumn, endColumn))\<close> the range on that row.
\<close>

definition bufferRangeForScopeAtPosition ::
  "'rs tokenizedBuffer \<Rightarrow> string \<Rightarrow> point
     \<Rightarrow> (error + (int \<times> int \<times> int option) option) \<times> 'rs tokenizedBuffer" where
  "bufferRangeForScopeAtPosition tb selector position =
     (case tokenizedLineForRow tb (pointRow position) of
        (None, tb') \<Rightarrow> (Inl TypeError, tb')
      | (Some l, tb') \<Rightarrow>
          (let scopes0 = map (scopeForId (grammar tb')) (openScopes l)
           in case scanToColumn (grammar tb') (pointColumn position) (tags l) 0 scopes0 0 None of
                (tokenIndex, scopes, startColumn, endColumn) \<Rightarrow>
                  (case selectorMatchesAnyScope selector scopes of
                     Inl err \<Rightarrow> (Inl err, tb')
                   | Inr matches \<Rightarrow>
                       if \<not> matches then (Inr None, tb')
                       else
                         (case expandStart (grammar tb') selector (rev (take tokenIndex (tags l)))
                                 scopes startColumn of
                            Inl err \<Rightarrow> (Inl err, tb')
                          | Inr startColumn' \<Rightarrow>
                              (case expandEnd (grammar tb') selector
                                      (drop (Suc tokenIndex) (tags l)) scopes endColumn of
                                 Inl err \<Rightarrow> (Inl err, tb')
                               | Inr endColumn' \<Rightarrow>
                                   (Inr (Some (pointRow position, startColumn', endColumn')), tb'))))))"

text \<open>
  \<^verbatim>\<open>indentLevelForLine(line, tabLength)\<close>. The quotient is exact here where the source's is a
  double, and \<^verbatim>\<open>tabLength\<close> is a positive integer.
\<close>

fun indentLength :: "int \<Rightarrow> string \<Rightarrow> int \<Rightarrow> int" where
  "indentLength tabLen [] n = n"
| "indentLength tabLen (c # cs) n =
     (if c = CHR 0x09 then indentLength tabLen cs (n + (tabLen - (n smod tabLen)))
      else if c = CHR '' '' then indentLength tabLen cs (n + 1)
      else n)"

definition indentLevelForLine :: "string \<Rightarrow> int \<Rightarrow> rat" where
  "indentLevelForLine line tabLen = of_int (indentLength tabLen line 0) / of_int tabLen"

function nextIndentLevel :: "'rs tokenizedBuffer \<Rightarrow> int \<Rightarrow> rat" where
  "nextIndentLevel tb nextRow =
     (if nextRow < int (getLineCount (buffer tb)) then
        (let nextLine = lineForRow (buffer tb) nextRow
         in if nextLine \<noteq> [] then of_int \<lceil>indentLevelForLine nextLine (tabLength tb)\<rceil>
            else nextIndentLevel tb (nextRow + 1))
      else 0)"
  by pat_completeness auto
termination
  by (relation "measure (\<lambda>(tb, nextRow). nat (int (getLineCount (buffer tb)) - nextRow))") auto

function previousIndentLevel :: "'rs tokenizedBuffer \<Rightarrow> int \<Rightarrow> rat \<Rightarrow> rat" where
  "previousIndentLevel tb previousRow indentLevel =
     (if previousRow \<ge> 0 then
        (let previousLine = lineForRow (buffer tb) previousRow
         in if previousLine \<noteq> []
            then max (of_int \<lceil>indentLevelForLine previousLine (tabLength tb)\<rceil>) indentLevel
            else previousIndentLevel tb (previousRow - 1) indentLevel)
      else indentLevel)"
  by pat_completeness auto
termination
  by (relation "measure (\<lambda>(tb, previousRow, indentLevel). nat (previousRow + 1))") auto

declare nextIndentLevel.simps [simp del] previousIndentLevel.simps [simp del]

definition indentLevelForRow :: "'rs tokenizedBuffer \<Rightarrow> int \<Rightarrow> rat" where
  "indentLevelForRow tb bufferRow =
     (let line = lineForRow (buffer tb) bufferRow
      in if line = [] then
           previousIndentLevel tb (bufferRow - 1) (nextIndentLevel tb (bufferRow + 1))
         else indentLevelForLine line (tabLength tb))"

text \<open>
  \<^verbatim>\<open>isFoldableCodeAtRow(row)\<close>; \<^verbatim>\<open>isComment\<close> is a method of \<^verbatim>\<open>TokenizedLine\<close> and a parameter.
\<close>

definition isFoldableCodeAtRow ::
  "('rs tokenizedLine \<Rightarrow> bool) \<Rightarrow> 'rs tokenizedBuffer \<Rightarrow> int \<Rightarrow> bool" where
  "isFoldableCodeAtRow isComment tb row =
     (if row \<ge> 0 \<and> row \<le> bufferLastRow (buffer tb) then
        (let nextRow = nextNonBlankRow (buffer tb) row;
             tokenizedLine = lineAt (tokenizedLines tb) row
         in if isRowBlank (buffer tb) row
               \<or> (case tokenizedLine of None \<Rightarrow> False | Some l \<Rightarrow> isComment l)
               \<or> nextRow = None
            then False
            else (case nextRow of None \<Rightarrow> False
                  | Some n \<Rightarrow> indentLevelForRow tb n > indentLevelForRow tb row))
      else False)"

subsection \<open>Sequences of operations\<close>

text \<open>
  The four operations on \<^verbatim>\<open>invalidRows\<close> and a run of them, one after the other. The rebase
  of an edit has \<open>start \<le> end\<close> and \<open>start \<le> end + delta\<close>: the old and the new range of a
  change start at the same row and end at or after it.
\<close>

datatype invalidRowsOp =
  InvalidateRow int | ValidateRow int | UpdateInvalidRows int int int | TokenizeNextChunk

fun applyInvalidRowsOp :: "invalidRowsOp \<Rightarrow> 'rs tokenizedBuffer \<Rightarrow> 'rs tokenizedBuffer option" where
  "applyInvalidRowsOp (InvalidateRow row) tb = Some (invalidateRow tb row)"
| "applyInvalidRowsOp (ValidateRow row) tb = Some (validateRow tb row)"
| "applyInvalidRowsOp (UpdateInvalidRows start end delta) tb = Some (updateInvalidRows tb start end delta)"
| "applyInvalidRowsOp TokenizeNextChunk tb = tokenizeNextChunk tb"

fun applyInvalidRowsOps :: "invalidRowsOp list \<Rightarrow> 'rs tokenizedBuffer \<Rightarrow> 'rs tokenizedBuffer option" where
  "applyInvalidRowsOps [] tb = Some tb"
| "applyInvalidRowsOps (operation # operations) tb =
     (case applyInvalidRowsOp operation tb of
        None \<Rightarrow> None
      | Some tb' \<Rightarrow> applyInvalidRowsOps operations tb')"

fun rebaseOfAnEdit :: "invalidRowsOp \<Rightarrow> bool" where
  "rebaseOfAnEdit (UpdateInvalidRows start end delta) = (start \<le> end \<and> start \<le> end + delta)"
| "rebaseOfAnEdit _ = True"

text \<open>
  The operations of a tokenized buffer, as a run calls them. \<open>execute\<close> gives the states an
  operation goes through: the state after each assignment to the \<^verbatim>\<open>fullyTokenized\<close> flag,
  and the state it ends in. \<^verbatim>\<open>retokenizeLines\<close> assigns \<^verbatim>\<open>false\<close> and may then mark the tokenization
  complete, so it goes through \<open>resetLines tb\<close>; every other operation assigns the flag at
  most once. A change of the buffer comes with the buffer as it is after the change.
  \<open>executeAll\<close> gives the states of a run, the first state included.
\<close>

datatype operation =
  Retokenize | SetVisible bool | RunDeferredChunk | NextChunk
  | BufferDidChange textBuffer changeEvent | MarkTokenizationComplete
  | Invalidate int | Validate int | LineForRow int | Destroy

fun execute :: "operation \<Rightarrow> 'rs tokenizedBuffer \<Rightarrow> 'rs tokenizedBuffer list option" where
  "execute Retokenize tb = Some (if alive tb then [resetLines tb, retokenizeLines tb] else [tb])"
| "execute (SetVisible v) tb = Some [setVisible tb v]"
| "execute RunDeferredChunk tb = map_option (\<lambda>s. [s]) (deferredChunk tb)"
| "execute NextChunk tb = map_option (\<lambda>s. [s]) (tokenizeNextChunk tb)"
| "execute (BufferDidChange b e) tb = Some [bufferDidChange (tb\<lparr>buffer := b\<rparr>) e]"
| "execute MarkTokenizationComplete tb = Some [markTokenizationComplete tb]"
| "execute (Invalidate row) tb = Some [invalidateRow tb row]"
| "execute (Validate row) tb = Some [validateRow tb row]"
| "execute (LineForRow row) tb = Some [snd (tokenizedLineForRow tb row)]"
| "execute Destroy tb = Some [destroy tb]"

fun executeAll :: "operation list \<Rightarrow> 'rs tokenizedBuffer \<Rightarrow> 'rs tokenizedBuffer list option" where
  "executeAll [] tb = Some [tb]"
| "executeAll (operation # operations) tb =
     (case execute operation tb of
        None \<Rightarrow> None
      | Some states \<Rightarrow>
          (case executeAll operations (last states) of
             None \<Rightarrow> None
           | Some rest \<Rightarrow> Some (tb # butlast states @ rest)))"

fun transitions :: "bool list \<Rightarrow> nat" where
  "transitions (a # b # flags) = (if \<not> a \<and> b then 1 else 0) + transitions (b # flags)"
| "transitions flags = 0"

definition didTokenizeCount :: "'rs tokenizedBuffer \<Rightarrow> nat" where
  "didTokenizeCount tb = count_list (emitted tb) DidTokenize"

text \<open>A run of buffer changes, each with the buffer as it is after the change.\<close>

fun bufferDidChanges ::
  "'rs tokenizedBuffer \<Rightarrow> (textBuffer \<times> changeEvent) list \<Rightarrow> 'rs tokenizedBuffer" where
  "bufferDidChanges tb [] = tb"
| "bufferDidChanges tb ((b, e) # edits) = bufferDidChanges (bufferDidChange (tb\<lparr>buffer := b\<rparr>) e) edits"

subsection \<open>The rows an invocation tokenizes\<close>






subsection \<open>The work that is left\<close>

text \<open>
  A measure of the invalid rows for the termination argument: a row at or before the last
  row weighs the number of rows from it to the end of the buffer, plus one; a row beyond
  the last row weighs one.
\<close>

definition rowWeight :: "int \<Rightarrow> int \<Rightarrow> nat" where
  "rowWeight lastRow r = Suc (nat (lastRow + 1 - r))"

definition pendingWork :: "'rs tokenizedBuffer \<Rightarrow> nat" where
  "pendingWork tb = sum_list (map (rowWeight (getLastRow tb)) (invalidRows tb))"

text \<open>The fields that \<^verbatim>\<open>tokenizeNextChunk\<close>'s loops leave alone.\<close>

definition fixedPart :: "'rs tokenizedBuffer \<Rightarrow> 'rs tokenizedBuffer" where
  "fixedPart tb = tb\<lparr>tokenizedLines := [], invalidRows := [], pendingChunk := False, emitted := []\<rparr>"

text \<open>
  What the outer loop of \<^verbatim>\<open>tokenizeNextChunk\<close> establishes, from the state and
  \<^verbatim>\<open>rowsRemaining\<close> it starts with to those it ends with.
\<close>

definition regionsPost ::
  "'rs tokenizedBuffer \<Rightarrow> int \<Rightarrow> 'rs tokenizedBuffer \<Rightarrow> int \<Rightarrow> bool" where
  "regionsPost tb rem tb' rem' \<longleftrightarrow>
     fixedPart tb' = fixedPart tb
     \<and> (\<exists>es. emitted tb' = emitted tb @ es \<and> DidTokenize \<notin> set es)
     \<and> pendingWork tb' \<le> pendingWork tb
     \<and> (0 < rem \<and> invalidRows tb \<noteq> [] \<longrightarrow> pendingWork tb' < pendingWork tb)
     \<and> rem' \<le> rem \<and> (0 \<le> rem \<longrightarrow> 0 \<le> rem')
     \<and> (sorted (invalidRows tb) \<longrightarrow> sorted (invalidRows tb'))
     \<and> (0 < rem \<and> (\<exists>r \<in> set (invalidRows tb). r \<le> getLastRow tb) \<longrightarrow> rem' < rem)"

section \<open>Example values\<close>

text \<open>
  A grammar that wraps every line in its root scope and returns the length of the line as
  its rule stack, a buffer over a list of lines, a tokenized buffer over them with a given
  list of invalid rows and chunk size, and a store with one array.
\<close>

definition exampleGrammar :: "nat grammar" where
  "exampleGrammar =
     \<lparr> name = ''Example'', scopeName = ''source.example'',
       tokenizeLine = (\<lambda>txt stack firstLine. ([- 1, int (length txt), - 2], Some (length txt))),
       scopeForId = (\<lambda>i. if i = - 1 \<or> i = - 2 then Some ''source.example'' else None),
       startIdForScope = (\<lambda>s. - 1),
       endIdForScope = (\<lambda>s. - 2) \<rparr>"

definition exampleBuffer :: "string list \<Rightarrow> textBuffer" where
  "exampleBuffer ls =
     \<lparr> getLineCount = length ls,
       lineForRow = (\<lambda>row. if 0 \<le> row \<and> row < int (length ls) then ls ! nat row else []),
       lineEndingForRow = (\<lambda>row. []),
       isRowBlank = (\<lambda>row. True),
       nextNonBlankRow = (\<lambda>row. None),
       getPath = ''/tmp/example'',
       getText = concat ls,
       bufferIsAlive = True,
       bufferChangeCount = 0 \<rparr>"

definition exampleTokenizedBuffer :: "string list \<Rightarrow> int list \<Rightarrow> int \<Rightarrow> nat tokenizedBuffer" where
  "exampleTokenizedBuffer ls rows chunk =
     \<lparr> buffer = exampleBuffer ls, grammar = exampleGrammar, tabLength = 2,
       largeFileMode = False, alive = True, visible = True, pendingChunk = False,
       fullyTokenized = False, chunkSize = chunk, changeCount = 0,
       tokenizedLines = replicate (length ls) None, invalidRows = rows, emitted = [] \<rparr>"

definition exampleStore :: store where
  "exampleStore = \<lparr> cells = (\<lambda>a. if a = 0 then [- 1] else []), nextAddr = 1 \<rparr>"

text \<open>The example grammar under the name of the null grammar, and an edit by its rows.\<close>

definition exampleNullGrammar :: "nat grammar" where
  "exampleNullGrammar = exampleGrammar\<lparr>name := ''Null Grammar''\<rparr>"

definition exampleEdit :: "int \<Rightarrow> int \<Rightarrow> int \<Rightarrow> changeEvent" where
  "exampleEdit start oldEnd newEnd =
     \<lparr> oldRange = \<lparr> rangeStart = \<lparr> pointRow = start, pointColumn = 0 \<rparr>,
                    rangeEnd = \<lparr> pointRow = oldEnd, pointColumn = 0 \<rparr> \<rparr>,
       newRange = \<lparr> rangeStart = \<lparr> pointRow = start, pointColumn = 0 \<rparr>,
                    rangeEnd = \<lparr> pointRow = newEnd, pointColumn = 0 \<rparr> \<rparr> \<rparr>"

section \<open>The scope-stack folder\<close>

lemma popUntilMatch_unmatched:
  "m \<notin> set scopes \<Longrightarrow> popUntilMatch scopes m = ([], True)"
proof (induction scopes m rule: popUntilMatch.induct)
  case (1 scopes m)
  show ?case
  proof (cases "scopes = []")
    case True
    then show ?thesis by (simp add: popUntilMatch.simps pop_def)
  next
    case False
    then have ne: "last scopes \<noteq> m" and sub: "m \<notin> set (butlast scopes)"
      using "1.prems" by (auto dest: in_set_butlastD)
    show ?thesis
    proof (cases "butlast scopes = []")
      case True
      with False ne show ?thesis
        by (subst popUntilMatch.simps) (simp add: pop_def)
    next
      case nb: False
      then have nb': "\<not> length scopes \<le> Suc 0" by (cases scopes rule: rev_cases) auto
      have "popUntilMatch (butlast scopes) m = ([], True)"
        using "1.IH"[of "Some (last scopes)" "butlast scopes"] False ne nb nb' sub
        by (simp add: pop_def)
      with False ne nb show ?thesis
        by (subst popUntilMatch.simps) (simp add: pop_def)
    qed
  qed
qed

lemma popUntilMatch_matched:
  "m \<in> set scopes \<Longrightarrow> snd (popUntilMatch scopes m) = False"
proof (induction scopes m rule: popUntilMatch.induct)
  case (1 scopes m)
  then have ne: "scopes \<noteq> []" by auto
  show ?case
  proof (cases "last scopes = m")
    case True
    with ne show ?thesis by (subst popUntilMatch.simps) (simp add: pop_def)
  next
    case False
    with ne "1.prems" have mem: "m \<in> set (butlast scopes)"
      by (metis append_butlast_last_id in_set_conv_decomp rotate1.simps(2) set_ConsD set_rotate1)
    then have nb: "butlast scopes \<noteq> []" by auto
    then have nb': "\<not> length scopes \<le> Suc 0" by (cases scopes rule: rev_cases) auto
    have "snd (popUntilMatch (butlast scopes) m) = False"
      using "1.IH"[of "Some (last scopes)" "butlast scopes"] False ne nb nb' mem
      by (simp add: pop_def)
    with False ne nb show ?thesis
      by (subst popUntilMatch.simps) (simp add: pop_def)
  qed
qed

lemma scopesStep_failures:
  "scopesStep g b (scopes, fs) tag =
     (fst (scopesStep g b (scopes, []) tag), fs @ snd (scopesStep g b (scopes, []) tag))"
  by (simp add: scopesStep_def split: prod.splits)

lemma foldl_scopesStep_failures:
  "foldl (scopesStep g b) (scopes, fs) tgs =
     (fst (foldl (scopesStep g b) (scopes, []) tgs),
      fs @ snd (foldl (scopesStep g b) (scopes, []) tgs))"
proof (induction tgs arbitrary: scopes fs)
  case Nil
  show ?case by simp
next
  case (Cons t ts)
  obtain s1 f1 where st: "scopesStep g b (scopes, []) t = (s1, f1)" by (cases "scopesStep g b (scopes, []) t")
  have st': "scopesStep g b (scopes, fs) t = (s1, fs @ f1)"
    using scopesStep_failures[of g b scopes fs t] st by simp
  show ?case
    using Cons.IH[of s1 "fs @ f1"] Cons.IH[of s1 f1] st st' by simp
qed

text \<open>
  Claim C2, as the code has it. When a close tag (negative and even) finds its matching
  open tag nowhere on the stack, \<^verbatim>\<open>scopesFromTags\<close> pops until the stack is empty and
  reports one assertion failure carrying the grammar's scope name, the scope name of the
  unmatched close tag, the buffer's path and the buffer's contents. The \<^verbatim>\<open>break\<close> leaves the
  popping loop only: the tags after the offending close are folded as well, starting from
  the empty stack, and the result is the fold of those tags over the empty stack.
\<close>

theorem scopesFromTags_unmatched_close:
  assumes "tag < 0" and "tag smod 2 \<noteq> - 1"
    and "tag + 1 \<notin> set (fst (scopesFromTags g b startingScopes before))"
  shows "scopesFromTags g b startingScopes (before @ [tag]) =
           ([], snd (scopesFromTags g b startingScopes before) @ [unmatchedEndTagAssertion g b tag])
         \<and> scopesFromTags g b startingScopes (before @ tag # after) =
           (fst (scopesFromTags g b [] after),
            snd (scopesFromTags g b startingScopes before) @ [unmatchedEndTagAssertion g b tag]
              @ snd (scopesFromTags g b [] after))"
proof -
  obtain s f where pre: "scopesFromTags g b startingScopes before = (s, f)"
    by (cases "scopesFromTags g b startingScopes before")
  with assms(3) have "popUntilMatch s (tag + 1) = ([], True)"
    by (simp add: popUntilMatch_unmatched)
  with assms(1,2) have step: "scopesStep g b (s, f) tag = ([], f @ [unmatchedEndTagAssertion g b tag])"
    by (simp add: scopesStep_def)
  have one: "scopesFromTags g b startingScopes (before @ [tag]) = ([], f @ [unmatchedEndTagAssertion g b tag])"
    using pre step by (simp add: scopesFromTags_def)
  have "scopesFromTags g b startingScopes (before @ tag # after) =
        foldl (scopesStep g b) ([], f @ [unmatchedEndTagAssertion g b tag]) after"
    using pre step by (simp add: scopesFromTags_def)
  also have "\<dots> = (fst (scopesFromTags g b [] after),
      (f @ [unmatchedEndTagAssertion g b tag]) @ snd (scopesFromTags g b [] after))"
    unfolding scopesFromTags_def by (rule foldl_scopesStep_failures)
  finally show ?thesis using one pre by simp
qed


theorem scopesFromTags_unmatched_close_witness:
  "(- 4 :: int) < 0 \<and> (- 4 :: int) smod 2 \<noteq> - 1
   \<and> - 4 + 1 \<notin> set (fst (scopesFromTags exampleGrammar (exampleBuffer [''ab'']) [- 1] [- 5]))
   \<and> scopesFromTags exampleGrammar (exampleBuffer [''ab'']) [- 1] ([- 5] @ [- 4]) =
       ([], [unmatchedEndTagAssertion exampleGrammar (exampleBuffer [''ab'']) (- 4)])
   \<and> scopesFromTags exampleGrammar (exampleBuffer [''ab'']) [- 1] ([- 5] @ - 4 # [- 7, 2]) =
       ([- 7], [unmatchedEndTagAssertion exampleGrammar (exampleBuffer [''ab'']) (- 4)])"
proof -
  let ?g = exampleGrammar and ?b = "exampleBuffer [''ab'']"
  have h1: "(- 4 :: int) < 0" by simp
  have h2: "(- 4 :: int) smod 2 \<noteq> - 1" by (simp add: signed_modulo_int_def)
  have pre: "scopesFromTags ?g ?b [- 1] [- 5] = ([- 1, - 5], [])"
    by (simp add: scopesFromTags_def scopesStep_def signed_modulo_int_def)
  have h3: "- 4 + 1 \<notin> set (fst (scopesFromTags ?g ?b [- 1] [- 5]))"
    by (simp add: pre)
  have post: "scopesFromTags ?g ?b [] [- 7, 2] = ([- 7], [])"
    by (simp add: scopesFromTags_def scopesStep_def signed_modulo_int_def)
  show ?thesis
    using scopesFromTags_unmatched_close[OF h1 h2 h3, of "[- 7, 2]"] h1 h2 h3
    by (simp add: pre post)
qed

text \<open>
  Claim C2 as stated fails: after the unmatched close tag \<open>- 4\<close> has emptied the stack and
  the assertion is reported, the next tag \<open>- 3\<close> is still applied, and the stack returned is
  not the empty one.
\<close>

theorem scopesFromTags_continues_counterexample:
  "scopesFromTags exampleGrammar (exampleBuffer [''ab'']) [- 1] [- 4, - 3] =
     ([- 3], [unmatchedEndTagAssertion exampleGrammar (exampleBuffer [''ab'']) (- 4)])
   \<and> fst (scopesFromTags exampleGrammar (exampleBuffer [''ab'']) [- 1] [- 4, - 3]) \<noteq> []"
  by (simp add: scopesFromTags_def scopesStep_def popUntilMatch.simps pop_def
      signed_modulo_int_def)

lemma popUntilMatchAt_pure:
  "cells (fst (popUntilMatchAt h a m)) c =
     (if c = a then fst (popUntilMatch (cells h a) m) else cells h c)
   \<and> nextAddr (fst (popUntilMatchAt h a m)) = nextAddr h
   \<and> snd (popUntilMatchAt h a m) = snd (popUntilMatch (cells h a) m)"
proof (induction h a m rule: popUntilMatchAt.induct)
  case (1 h a m)
  obtain popped rest where p: "pop (cells h a) = (popped, rest)" by (cases "pop (cells h a)")
  let ?h' = "h\<lparr>cells := (cells h)(a := rest)\<rparr>"
  have pa: "popAt h a = (popped, ?h')" by (simp add: popAt_def p)
  show ?case
  proof (cases "popped = Some m \<or> length rest = 0")
    case True
    then have pure: "popUntilMatch (cells h a) m = (rest, popped \<noteq> Some m)"
      by (subst popUntilMatch.simps) (auto simp: p)
    from True have "popUntilMatchAt h a m = (?h', popped \<noteq> Some m)"
      by (subst popUntilMatchAt.simps) (auto simp: pa)
    with pure show ?thesis by simp
  next
    case False
    then have pure: "popUntilMatch (cells h a) m = popUntilMatch rest m"
      by (subst popUntilMatch.simps) (simp add: p)
    from False have at: "popUntilMatchAt h a m = popUntilMatchAt ?h' a m"
      by (subst popUntilMatchAt.simps) (simp add: pa)
    show ?thesis
      using "1.IH"[OF pa[symmetric]] False by (simp add: at pure)
  qed
qed

lemma scopesStepAt_pure:
  "cells (fst (scopesStepAt g b a (h, fs) tag)) c =
     (if c = a then fst (scopesStep g b (cells h a, fs) tag) else cells h c)
   \<and> nextAddr (fst (scopesStepAt g b a (h, fs) tag)) = nextAddr h
   \<and> snd (scopesStepAt g b a (h, fs) tag) = snd (scopesStep g b (cells h a, fs) tag)"
proof -
  obtain h1 f1 where at: "popUntilMatchAt h a (tag + 1) = (h1, f1)"
    by (cases "popUntilMatchAt h a (tag + 1)")
  obtain s2 f2 where pu: "popUntilMatch (cells h a) (tag + 1) = (s2, f2)"
    by (cases "popUntilMatch (cells h a) (tag + 1)")
  show ?thesis
    using popUntilMatchAt_pure[of h a "tag + 1" c] at pu
    by (auto simp: scopesStepAt_def scopesStep_def pushAt_def)
qed

lemma foldl_scopesStepAt_pure:
  "cells (fst (foldl (scopesStepAt g b a) (h, fs) tgs)) c =
     (if c = a then fst (foldl (scopesStep g b) (cells h a, fs) tgs) else cells h c)
   \<and> nextAddr (fst (foldl (scopesStepAt g b a) (h, fs) tgs)) = nextAddr h
   \<and> snd (foldl (scopesStepAt g b a) (h, fs) tgs) = snd (foldl (scopesStep g b) (cells h a, fs) tgs)"
proof (induction tgs arbitrary: h fs)
  case Nil
  show ?case by simp
next
  case (Cons t ts)
  obtain h1 fa where sa: "scopesStepAt g b a (h, fs) t = (h1, fa)"
    by (cases "scopesStepAt g b a (h, fs) t")
  obtain s1 f1 where st: "scopesStep g b (cells h a, fs) t = (s1, f1)"
    by (cases "scopesStep g b (cells h a, fs) t")
  have rel: "cells h1 a = s1" "c \<noteq> a \<Longrightarrow> cells h1 c = cells h c" "nextAddr h1 = nextAddr h" "fa = f1"
    using scopesStepAt_pure[of g b a h fs t a] scopesStepAt_pure[of g b a h fs t c] sa st by simp_all
  show ?case
    using Cons.IH[of h1 fa] rel by (simp add: sa st)
qed

text \<open>
  Claim C10. \<^verbatim>\<open>scopesFromTags\<close> leaves the array \<^verbatim>\<open>startingScopes\<close> as it was: it works on a
  copy at a fresh address, which is the array it returns, and no other array of the store
  is written. The returned array holds what \<open>scopesFromTags\<close> computes from the contents of
  \<^verbatim>\<open>startingScopes\<close>.
\<close>

theorem scopesFromTagsAt_frame:
  assumes "a < nextAddr h" and "scopesFromTagsAt g b h a tgs = (h', result, fs)"
  shows "cells h' a = cells h a \<and> result \<noteq> a \<and> result = nextAddr h
         \<and> (\<forall>c. c \<noteq> result \<longrightarrow> cells h' c = cells h c)
         \<and> cells h' result = fst (scopesFromTags g b (cells h a) tgs)
         \<and> fs = snd (scopesFromTags g b (cells h a) tgs)"
proof -
  let ?h0 = "h\<lparr>cells := (cells h)(nextAddr h := cells h a), nextAddr := Suc (nextAddr h)\<rparr>"
  obtain h1 f1 where fo: "foldl (scopesStepAt g b (nextAddr h)) (?h0, []) tgs = (h1, f1)"
    by (cases "foldl (scopesStepAt g b (nextAddr h)) (?h0, []) tgs")
  have res: "h' = h1" "result = nextAddr h" "fs = f1"
    using assms(2) fo by (simp_all add: scopesFromTagsAt_def slice_def)
  have "cells h1 c = (if c = nextAddr h then fst (scopesFromTags g b (cells h a) tgs) else cells h c)"
    and "f1 = snd (scopesFromTags g b (cells h a) tgs)" for c
    using foldl_scopesStepAt_pure[of g b "nextAddr h" ?h0 "[]" tgs c] fo assms(1)
    by (simp_all add: scopesFromTags_def)
  then show ?thesis
    using res assms(1) by simp
qed

theorem scopesFromTagsAt_frame_witness:
  "0 < nextAddr exampleStore
   \<and> cells (fst (scopesFromTagsAt exampleGrammar (exampleBuffer [''ab'']) exampleStore 0 [- 3, - 4, - 2, - 5])) 0 = [- 1]
   \<and> fst (snd (scopesFromTagsAt exampleGrammar (exampleBuffer [''ab'']) exampleStore 0 [- 3, - 4, - 2, - 5])) = 1
   \<and> cells (fst (scopesFromTagsAt exampleGrammar (exampleBuffer [''ab'']) exampleStore 0 [- 3, - 4, - 2, - 5])) 1 = [- 5]"
proof -
  have a: "0 < nextAddr exampleStore" by (simp add: exampleStore_def)
  obtain h' r fs where e: "scopesFromTagsAt exampleGrammar (exampleBuffer [''ab'']) exampleStore 0 [- 3, - 4, - 2, - 5] = (h', r, fs)"
    by (cases "scopesFromTagsAt exampleGrammar (exampleBuffer [''ab'']) exampleStore 0 [- 3, - 4, - 2, - 5]")
  have p: "fst (scopesFromTags exampleGrammar (exampleBuffer [''ab'']) [- 1] [- 3, - 4, - 2, - 5]) = [- 5]"
    by (simp add: scopesFromTags_def scopesStep_def popUntilMatch.simps pop_def signed_modulo_int_def)
  have c: "cells exampleStore 0 = [- 1]" "nextAddr exampleStore = 1"
    by (simp_all add: exampleStore_def)
  show ?thesis
    using scopesFromTagsAt_frame[OF a e] a p c by (auto simp: e)
qed

section \<open>Invalid rows\<close>

lemma rebaseRow_defined: "rebaseRow start end delta row \<noteq> None"
  by (simp add: rebaseRow_def)

text \<open>
  Claim C4. For an edit from row \<open>start\<close> to row \<open>end\<close> (\<open>start \<le> end\<close>, as in the old range of
  a change) and every stored invalid row \<open>r\<close>, \<^verbatim>\<open>updateInvalidRows(start, end, delta)\<close> leaves
  \<open>r\<close> as it is when \<open>r < start\<close>, makes it \<open>end + delta + 1\<close> when \<open>start \<le> r \<le> end\<close>, and
  \<open>r + delta\<close> when \<open>r > end\<close>; the list keeps its length.
\<close>

theorem updateInvalidRows_rebase:
  assumes "start \<le> end" and "i < length (invalidRows tb)"
  shows "length (invalidRows (updateInvalidRows tb start end delta)) = length (invalidRows tb)
    \<and> (invalidRows tb ! i < start \<longrightarrow>
         invalidRows (updateInvalidRows tb start end delta) ! i = invalidRows tb ! i)
    \<and> (start \<le> invalidRows tb ! i \<and> invalidRows tb ! i \<le> end \<longrightarrow>
         invalidRows (updateInvalidRows tb start end delta) ! i = end + delta + 1)
    \<and> (invalidRows tb ! i > end \<longrightarrow>
         invalidRows (updateInvalidRows tb start end delta) ! i = invalidRows tb ! i + delta)"
  using assms by (simp add: updateInvalidRows_def rebaseRow_def)

theorem updateInvalidRows_rebase_witness:
  "(3::int) \<le> 5
   \<and> invalidRows (exampleTokenizedBuffer [''a''] [1, 4, 9] 20) = [1, 4, 9]
   \<and> length (invalidRows (updateInvalidRows (exampleTokenizedBuffer [''a''] [1, 4, 9] 20) 3 5 (- 1))) = 3
   \<and> invalidRows (updateInvalidRows (exampleTokenizedBuffer [''a''] [1, 4, 9] 20) 3 5 (- 1)) ! 0 = 1
   \<and> invalidRows (updateInvalidRows (exampleTokenizedBuffer [''a''] [1, 4, 9] 20) 3 5 (- 1)) ! 1 = 5
   \<and> invalidRows (updateInvalidRows (exampleTokenizedBuffer [''a''] [1, 4, 9] 20) 3 5 (- 1)) ! 2 = 8"
proof -
  let ?tb = "exampleTokenizedBuffer [''a''] [1, 4, 9] 20"
  have h: "(3::int) \<le> 5" by simp
  have v: "invalidRows ?tb = [1, 4, 9]" by (simp add: exampleTokenizedBuffer_def)
  have i0: "(0::nat) < length (invalidRows ?tb)" and i1: "(1::nat) < length (invalidRows ?tb)"
    and i2: "(2::nat) < length (invalidRows ?tb)" using v by simp_all
  show ?thesis
    using updateInvalidRows_rebase[OF h i0, of "- 1"] updateInvalidRows_rebase[OF h i1, of "- 1"]
      updateInvalidRows_rebase[OF h i2, of "- 1"] v by simp
qed

section \<open>The chunked scheduler\<close>

lemma tokenizeRegion_total:
  "0 < rem \<Longrightarrow>
   \<exists>tb' endRow filled rem'.
     tokenizeRegion tb lastRow row rem = Some (tb', endRow, filled, rem')
     \<and> tb' = tb\<lparr>tokenizedLines := tokenizedLines tb'\<rparr>
     \<and> row \<le> endRow \<and> 0 \<le> rem' \<and> rem' < rem \<and> (\<not> filled \<longrightarrow> rem' = 0)
     \<and> rem - rem' = endRow - row + 1
     \<and> (row \<le> lastRow \<longrightarrow> endRow \<le> lastRow)"
proof (induction "nat rem" arbitrary: tb row rem)
  case 0
  then show ?case by simp
next
  case (Suc n)
  let ?tb' = "tb\<lparr>tokenizedLines :=
                    setLineAt (tokenizedLines tb) row
                      (buildTokenizedLineForRow tb row (stackForRow tb (row - 1))
                         (openScopesForRow tb row))\<rparr>"
  show ?case
  proof (cases "rem - 1 = 0")
    case True
    then show ?thesis
      by (subst tokenizeRegion.simps) (auto simp: Let_def)
  next
    case False
    note nz = False
    show ?thesis
    proof (cases "row = lastRow \<or> stackForRow ?tb' row = stackForRow tb row")
      case True
      with nz Suc.prems show ?thesis
        by (subst tokenizeRegion.simps) (auto simp add: Let_def)
    next
      case False
      have n: "n = nat (rem - 1)" and pos: "0 < rem - 1"
        using Suc.hyps(2) Suc.prems nz by linarith+
      obtain tb'' endRow filled rem' where
        r: "tokenizeRegion ?tb' lastRow (row + 1) (rem - 1) = Some (tb'', endRow, filled, rem')"
        and f: "tb'' = ?tb'\<lparr>tokenizedLines := tokenizedLines tb''\<rparr>"
        and rest: "row + 1 \<le> endRow" "0 \<le> rem'" "rem' < rem - 1" "\<not> filled \<longrightarrow> rem' = 0"
          "rem - 1 - rem' = endRow - (row + 1) + 1" "row + 1 \<le> lastRow \<longrightarrow> endRow \<le> lastRow"
        using Suc.hyps(1)[OF n pos, of ?tb' "row + 1"] by blast
      have f': "tb'' = tb\<lparr>tokenizedLines := tokenizedLines tb''\<rparr>"
        using f by simp
      have eq: "tokenizeRegion tb lastRow row rem = Some (tb'', endRow, filled, rem')"
        using nz False r by (subst tokenizeRegion.simps) (simp add: Let_def)
      have le: "row \<le> lastRow \<longrightarrow> endRow \<le> lastRow"
        using rest(6) False by auto
      show ?thesis
        using eq f' rest le by auto
    qed
  qed
qed


lemma fixedPart_fields:
  assumes "fixedPart tb' = fixedPart tb"
  shows "buffer tb' = buffer tb" "grammar tb' = grammar tb" "chunkSize tb' = chunkSize tb"
    "fullyTokenized tb' = fullyTokenized tb" "alive tb' = alive tb" "visible tb' = visible tb"
    "largeFileMode tb' = largeFileMode tb" "getLastRow tb' = getLastRow tb"
  using arg_cong[OF assms, of buffer] arg_cong[OF assms, of grammar]
    arg_cong[OF assms, of chunkSize] arg_cong[OF assms, of fullyTokenized]
    arg_cong[OF assms, of alive] arg_cong[OF assms, of visible]
    arg_cong[OF assms, of largeFileMode]
  by (simp_all add: fixedPart_def getLastRow_def)

lemma sum_list_rowWeight_sort:
  "sum_list (map (rowWeight l) (sort xs)) = sum_list (map (rowWeight l) xs)"
proof -
  have "mset (map (rowWeight l) (sort xs)) = mset (map (rowWeight l) xs)"
    by simp
  then show ?thesis
    by (metis sum_mset_sum_list)
qed

lemma sum_list_rowWeight_dropWhile:
  "sum_list (map (rowWeight l) (dropWhile P xs)) \<le> sum_list (map (rowWeight l) xs)"
  by (induction xs) auto

lemma rowWeight_next:
  "startRow \<le> endRow \<Longrightarrow> startRow \<le> l \<Longrightarrow> rowWeight l (endRow + 1) < rowWeight l startRow"
  by (simp add: rowWeight_def)

lemma tokenizeRegions_total:
  "\<exists>tb' rem'. tokenizeRegions tb rem = Some (tb', rem') \<and> regionsPost tb rem tb' rem'"
proof (induction "pendingWork tb" arbitrary: tb rem rule: less_induct)
  case less
  show ?case
  proof (cases "invalidRows tb")
    case Nil
    then have "tokenizeRegions tb rem = Some (tb, rem)"
      by (subst tokenizeRegions.simps) simp
    moreover have "regionsPost tb rem tb rem"
      using Nil by (simp add: regionsPost_def)
    ultimately show ?thesis by blast
  next
    case (Cons startRow rest)
    show ?thesis
    proof (cases "0 < rem")
      case False
      then have "tokenizeRegions tb rem = Some (tb, rem)"
        using Cons by (subst tokenizeRegions.simps) simp
      moreover have "regionsPost tb rem tb rem"
        using False by (simp add: regionsPost_def)
      ultimately show ?thesis by blast
    next
      case True
      define tb1 where "tb1 = tb\<lparr>invalidRows := rest\<rparr>"
      have l1: "getLastRow tb1 = getLastRow tb" by (simp add: tb1_def getLastRow_def)
      have w: "pendingWork tb = rowWeight (getLastRow tb) startRow + pendingWork tb1"
        by (simp add: pendingWork_def Cons tb1_def getLastRow_def)
      have fp1: "fixedPart tb1 = fixedPart tb" by (simp add: fixedPart_def tb1_def)
      have i1: "invalidRows tb1 = rest" by (simp add: tb1_def)
      show ?thesis
      proof (cases "startRow > getLastRow tb")
        case skip: True
        have eq: "tokenizeRegions tb rem = tokenizeRegions tb1 rem"
          using Cons True skip by (subst tokenizeRegions.simps) (simp add: tb1_def Let_def getLastRow_def)
        have "pendingWork tb1 < pendingWork tb" using w by (simp add: rowWeight_def)
        from less[OF this, of rem] obtain tb' rem' where
          r: "tokenizeRegions tb1 rem = Some (tb', rem')" and p: "regionsPost tb1 rem tb' rem'"
          by blast
        have "regionsPost tb rem tb' rem'"
          unfolding regionsPost_def
        proof (intro conjI impI)
          show "fixedPart tb' = fixedPart tb" using p fp1 by (simp add: regionsPost_def)
          show "\<exists>es. emitted tb' = emitted tb @ es \<and> DidTokenize \<notin> set es"
            using p by (simp add: regionsPost_def tb1_def)
          show "pendingWork tb' \<le> pendingWork tb" using p w by (simp add: regionsPost_def)
          show "pendingWork tb' < pendingWork tb" using p w by (simp add: regionsPost_def rowWeight_def)
          show "rem' \<le> rem" using p by (simp add: regionsPost_def)
          show "0 \<le> rem'" using p True by (simp add: regionsPost_def)
          show "sorted (invalidRows tb')" if "sorted (invalidRows tb)"
            using p that Cons by (simp add: regionsPost_def tb1_def)
          show "rem' < rem" if "0 < rem \<and> (\<exists>r\<in>set (invalidRows tb). r \<le> getLastRow tb)"
          proof -
            from that skip Cons have "\<exists>r\<in>set (invalidRows tb1). r \<le> getLastRow tb1"
              by (auto simp: tb1_def getLastRow_def)
            with p True show ?thesis by (simp add: regionsPost_def)
          qed
        qed
        with eq r show ?thesis by simp
      next
        case tok: False
        obtain tb2 endRow filled rem2 where
          r2: "tokenizeRegion tb1 (getLastRow tb) startRow rem = Some (tb2, endRow, filled, rem2)"
          and f2: "tb2 = tb1\<lparr>tokenizedLines := tokenizedLines tb2\<rparr>"
          and b2: "startRow \<le> endRow" "0 \<le> rem2" "rem2 < rem" "endRow \<le> getLastRow tb"
          using tokenizeRegion_total[OF True, of tb1 "getLastRow tb" startRow] tok by force
        define tb3 where "tb3 = validateRow tb2 endRow"
        define tb4 where "tb4 = (if \<not> filled then invalidateRow tb3 (endRow + 1) else tb3)"
        define tb5 where
          "tb5 = tb4\<lparr>emitted := emitted tb4 @ [DidInvalidateRange startRow (endRow + 1)]\<rparr>"
        have eq: "tokenizeRegions tb rem = tokenizeRegions tb5 rem2"
          using Cons True tok r2
          by (subst tokenizeRegions.simps)
             (simp add: tb1_def[symmetric] l1 Let_def tb3_def tb4_def tb5_def)
        have i2: "invalidRows tb2 = rest" using arg_cong[OF f2, of invalidRows] by (simp add: tb1_def)
        have e2: "emitted tb2 = emitted tb" using arg_cong[OF f2, of emitted] by (simp add: tb1_def)
        have fp2: "fixedPart tb2 = fixedPart tb"
          using arg_cong[OF f2, of fixedPart] by (simp add: tb1_def fixedPart_def)
        have fp5: "fixedPart tb5 = fixedPart tb"
          using fp2 by (simp add: tb5_def tb4_def tb3_def fixedPart_def validateRow_def
              invalidateRow_def tokenizeInBackground_def)
        have e5: "emitted tb5 = emitted tb @ [DidInvalidateRange startRow (endRow + 1)]"
          using e2 by (simp add: tb5_def tb4_def tb3_def validateRow_def
              invalidateRow_def tokenizeInBackground_def)
        have i5: "invalidRows tb5 =
            (if \<not> filled then sort (dropWhile (\<lambda>r. r \<le> endRow) rest @ [endRow + 1])
             else dropWhile (\<lambda>r. r \<le> endRow) rest)"
          using i2 by (simp add: tb5_def tb4_def tb3_def validateRow_def
              invalidateRow_def tokenizeInBackground_def)
        have l5: "getLastRow tb5 = getLastRow tb" using fixedPart_fields(8)[OF fp5] .
        have "pendingWork tb5 \<le> pendingWork tb1 + (if \<not> filled then rowWeight (getLastRow tb) (endRow + 1) else 0)"
          using sum_list_rowWeight_dropWhile[of "getLastRow tb" "\<lambda>r. r \<le> endRow" rest]
          by (simp add: pendingWork_def l5 l1 i5 i1 sum_list_rowWeight_sort)
        moreover have "rowWeight (getLastRow tb) (endRow + 1) < rowWeight (getLastRow tb) startRow"
          using b2(1) tok by (intro rowWeight_next) auto
        ultimately have dec: "pendingWork tb5 < pendingWork tb"
          using w by (auto simp: rowWeight_def split: if_splits)
        from less[OF dec, of rem2] obtain tb' rem' where
          r: "tokenizeRegions tb5 rem2 = Some (tb', rem')" and p: "regionsPost tb5 rem2 tb' rem'"
          by blast
        have "regionsPost tb rem tb' rem'"
          unfolding regionsPost_def
        proof (intro conjI impI)
          show "fixedPart tb' = fixedPart tb" using p fp5 by (simp add: regionsPost_def)
          show "\<exists>es. emitted tb' = emitted tb @ es \<and> DidTokenize \<notin> set es"
            using p e5 by (auto simp: regionsPost_def)
          show "pendingWork tb' \<le> pendingWork tb" using p dec by (simp add: regionsPost_def)
          show "pendingWork tb' < pendingWork tb" using p dec by (simp add: regionsPost_def)
          show "rem' \<le> rem" using p b2 by (simp add: regionsPost_def)
          show "0 \<le> rem'" using p b2 by (simp add: regionsPost_def)
          show "sorted (invalidRows tb')" if "sorted (invalidRows tb)"
          proof -
            from that Cons have "sorted rest" by simp
            then have "sorted (invalidRows tb5)"
              by (simp add: i5 sorted_dropWhile)
            with p show ?thesis by (simp add: regionsPost_def)
          qed
          show "rem' < rem" using p b2 by (simp add: regionsPost_def)
        qed
        with eq r show ?thesis by simp
      qed
    qed
  qed
qed



lemma tokenizeNextChunk_total:
  "\<exists>tb'. tokenizeNextChunk tb = Some tb'
     \<and> buffer tb' = buffer tb \<and> chunkSize tb' = chunkSize tb
     \<and> pendingWork tb' \<le> pendingWork tb
     \<and> (0 < chunkSize tb \<and> invalidRows tb \<noteq> [] \<longrightarrow> pendingWork tb' < pendingWork tb)
     \<and> (invalidRows tb' = [] \<longrightarrow> fullyTokenized tb')
     \<and> (sorted (invalidRows tb) \<longrightarrow> sorted (invalidRows tb'))"
proof -
  obtain tb1 rem' where r: "tokenizeRegions tb (chunkSize tb) = Some (tb1, rem')"
    and p: "regionsPost tb (chunkSize tb) tb1 rem'"
    using tokenizeRegions_total[of tb "chunkSize tb"] by blast
  define tb' where "tb' = (if firstInvalidRow tb1 \<noteq> None then tokenizeInBackground tb1
                           else markTokenizationComplete tb1)"
  have eq: "tokenizeNextChunk tb = Some tb'"
    by (simp add: tokenizeNextChunk_def r tb'_def)
  have fp: "fixedPart tb1 = fixedPart tb" using p by (simp add: regionsPost_def)
  have i: "invalidRows tb' = invalidRows tb1"
    by (simp add: tb'_def tokenizeInBackground_def markTokenizationComplete_def Let_def)
  have b: "buffer tb' = buffer tb1" "chunkSize tb' = chunkSize tb1"
    by (simp_all add: tb'_def tokenizeInBackground_def markTokenizationComplete_def Let_def)
  have pw: "pendingWork tb' = pendingWork tb1"
    by (simp add: pendingWork_def i b getLastRow_def)
  have fin: "invalidRows tb' = [] \<longrightarrow> fullyTokenized tb'"
    by (auto simp: tb'_def firstInvalidRow_def tokenizeInBackground_def
        markTokenizationComplete_def Let_def split: list.splits)
  show ?thesis
    using eq b fixedPart_fields(1,3)[OF fp] pw i fin p
    by (auto simp: regionsPost_def)
qed

lemma tokenizeNextChunks_total:
  "\<exists>s. tokenizeNextChunks n tb = Some s \<and> buffer s = buffer tb \<and> chunkSize s = chunkSize tb"
proof (induction n arbitrary: tb)
  case 0
  show ?case by simp
next
  case (Suc n)
  obtain tb1 where "tokenizeNextChunk tb = Some tb1" "buffer tb1 = buffer tb" "chunkSize tb1 = chunkSize tb"
    using tokenizeNextChunk_total[of tb] by blast
  with Suc[of tb1] show ?case by auto
qed



















section \<open>The shape of the invalid rows\<close>

lemma rebaseRow_mono:
  "start \<le> end + delta + 1 \<Longrightarrow> x \<le> y \<Longrightarrow>
   the (rebaseRow start end delta x) \<le> the (rebaseRow start end delta y)"
  by (auto simp: rebaseRow_def)

lemma sorted_rebase:
  "sorted xs \<Longrightarrow> start \<le> end + delta + 1 \<Longrightarrow>
   sorted (map (\<lambda>row. the (rebaseRow start end delta row)) xs)"
  by (induction xs) (auto simp: rebaseRow_mono)

lemma applyInvalidRowsOp_sorted:
  assumes "sorted (invalidRows tb)" and "rebaseOfAnEdit operation"
  shows "\<exists>tb'. applyInvalidRowsOp operation tb = Some tb' \<and> sorted (invalidRows tb')"
proof (cases operation)
  case (InvalidateRow row)
  then show ?thesis by (simp add: invalidateRow_def tokenizeInBackground_def)
next
  case (ValidateRow row)
  with assms show ?thesis by (simp add: validateRow_def sorted_dropWhile)
next
  case (UpdateInvalidRows s e d)
  with assms show ?thesis by (simp add: updateInvalidRows_def sorted_rebase)
next
  case TokenizeNextChunk
  with assms tokenizeNextChunk_total[of tb] show ?thesis by auto
qed

text \<open>
  Claim C5, as the code has it. Starting from a sorted list, after every sequence of
  \<^verbatim>\<open>invalidateRow\<close>, \<^verbatim>\<open>validateRow\<close>, \<^verbatim>\<open>updateInvalidRows\<close> (for the rebase of an edit) and
  \<^verbatim>\<open>tokenizeNextChunk\<close>, every operation returns and \<^verbatim>\<open>invalidRows\<close> is sorted ascending.
\<close>

theorem invalidRows_stay_sorted:
  assumes "sorted (invalidRows tb)" and "list_all rebaseOfAnEdit operations"
  shows "\<exists>tb'. applyInvalidRowsOps operations tb = Some tb' \<and> sorted (invalidRows tb')"
  using assms
proof (induction operations arbitrary: tb)
  case Nil
  then show ?case by simp
next
  case (Cons operation operations)
  then obtain tb1 where "applyInvalidRowsOp operation tb = Some tb1" "sorted (invalidRows tb1)"
    using applyInvalidRowsOp_sorted[of tb operation] by auto
  with Cons show ?case by auto
qed

theorem invalidRows_stay_sorted_witness:
  "sorted (invalidRows (exampleTokenizedBuffer [''a'', ''bc'', ''d''] [0] 2))
   \<and> list_all rebaseOfAnEdit [InvalidateRow 2, InvalidateRow 1, UpdateInvalidRows 1 1 1, TokenizeNextChunk, ValidateRow 2]
   \<and> (\<exists>tb'. applyInvalidRowsOps [InvalidateRow 2, InvalidateRow 1, UpdateInvalidRows 1 1 1, TokenizeNextChunk, ValidateRow 2]
               (exampleTokenizedBuffer [''a'', ''bc'', ''d''] [0] 2) = Some tb'
            \<and> sorted (invalidRows tb'))
   \<and> map_option invalidRows
        (applyInvalidRowsOps [InvalidateRow 2, InvalidateRow 1, UpdateInvalidRows 1 1 1, TokenizeNextChunk, ValidateRow 2]
           (exampleTokenizedBuffer [''a'', ''bc'', ''d''] [0] 2)) = Some [3, 3]"
proof -
  let ?tb = "exampleTokenizedBuffer [''a'', ''bc'', ''d''] [0] 2"
  let ?ops = "[InvalidateRow 2, InvalidateRow 1, UpdateInvalidRows 1 1 1, TokenizeNextChunk, ValidateRow 2]"
  have h1: "sorted (invalidRows ?tb)" by (simp add: exampleTokenizedBuffer_def)
  have h2: "list_all rebaseOfAnEdit ?ops" by simp
  have e: "map_option invalidRows (applyInvalidRowsOps ?ops ?tb) = Some [3, 3]"
    by code_simp
  show ?thesis
    using invalidRows_stay_sorted[OF h1 h2] h1 h2 e by simp
qed

text \<open>
  Claim C5 as stated fails in two of its three parts. \<^verbatim>\<open>invalidateRow\<close> pushes without
  looking for the row, so invalidating row 0 twice stores it twice. With a chunk size of 1
  and a buffer of one line, \<^verbatim>\<open>tokenizeNextChunk\<close> invalidates row 1, which is the line count.
\<close>

theorem invalidRows_shape_counterexample:
  "map_option invalidRows
     (applyInvalidRowsOps [InvalidateRow 0, InvalidateRow 0] (exampleTokenizedBuffer [''a''] [] 1)) = Some [0, 0]
   \<and> \<not> distinct [0, 0 :: int]
   \<and> map_option invalidRows
     (applyInvalidRowsOps [InvalidateRow 0, TokenizeNextChunk] (exampleTokenizedBuffer [''a''] [] 1)) = Some [1]
   \<and> \<not> (1 < int (getLineCount (buffer (exampleTokenizedBuffer [''a''] [] 1))))"
  by code_simp

section \<open>Edits\<close>

lemma invalidateRow_fields:
  "emitted (invalidateRow tb row) = emitted tb"
  "fullyTokenized (invalidateRow tb row) = fullyTokenized tb"
  "tokenizedLines (invalidateRow tb row) = tokenizedLines tb"
  "invalidRows (invalidateRow tb row) = sort (invalidRows tb @ [row])"
  "buffer (invalidateRow tb row) = buffer tb"
  "grammar (invalidateRow tb row) = grammar tb"
  "largeFileMode (invalidateRow tb row) = largeFileMode tb"
  "chunkSize (invalidateRow tb row) = chunkSize tb"
  by (simp_all add: invalidateRow_def tokenizeInBackground_def)

lemma tokenizeInBackground_fields:
  "emitted (tokenizeInBackground tb) = emitted tb"
  "fullyTokenized (tokenizeInBackground tb) = fullyTokenized tb"
  "tokenizedLines (tokenizeInBackground tb) = tokenizedLines tb"
  "invalidRows (tokenizeInBackground tb) = invalidRows tb"
  "buffer (tokenizeInBackground tb) = buffer tb"
  "grammar (tokenizeInBackground tb) = grammar tb"
  "largeFileMode (tokenizeInBackground tb) = largeFileMode tb"
  "chunkSize (tokenizeInBackground tb) = chunkSize tb"
  by (simp_all add: tokenizeInBackground_def)

lemma updateInvalidRows_fields:
  "emitted (updateInvalidRows tb s e d) = emitted tb"
  "fullyTokenized (updateInvalidRows tb s e d) = fullyTokenized tb"
  "tokenizedLines (updateInvalidRows tb s e d) = tokenizedLines tb"
  "buffer (updateInvalidRows tb s e d) = buffer tb"
  "grammar (updateInvalidRows tb s e d) = grammar tb"
  "largeFileMode (updateInvalidRows tb s e d) = largeFileMode tb"
  "chunkSize (updateInvalidRows tb s e d) = chunkSize tb"
  by (simp_all add: updateInvalidRows_def)

lemma buildTokenizedLinesForRows_fields:
  "emitted (snd (buildTokenizedLinesForRows tb s e st sc)) = emitted tb"
  "fullyTokenized (snd (buildTokenizedLinesForRows tb s e st sc)) = fullyTokenized tb"
  "tokenizedLines (snd (buildTokenizedLinesForRows tb s e st sc)) = tokenizedLines tb"
  "buffer (snd (buildTokenizedLinesForRows tb s e st sc)) = buffer tb"
  "grammar (snd (buildTokenizedLinesForRows tb s e st sc)) = grammar tb"
  "largeFileMode (snd (buildTokenizedLinesForRows tb s e st sc)) = largeFileMode tb"
  "chunkSize (snd (buildTokenizedLinesForRows tb s e st sc)) = chunkSize tb"
  "invalidRows (snd (buildTokenizedLinesForRows tb s e st sc)) =
     (if e \<ge> s + chunkSize tb then sort (invalidRows tb @ [s + chunkSize tb]) else invalidRows tb)"
  by (simp_all add: buildTokenizedLinesForRows_def Let_def invalidateRow_fields
      tokenizeInBackground_fields)

text \<open>The two branches of bufferDidChange, with the locals named.\<close>

lemma bufferDidChange_inactive:
  assumes "largeFileMode tb \<or> name (grammar tb) = ''Null Grammar''"
  shows "bufferDidChange tb e =
     (updateInvalidRows (tb\<lparr>changeCount := bufferChangeCount (buffer tb)\<rparr>)
        (pointRow (rangeStart (oldRange e))) (pointRow (rangeEnd (oldRange e)))
        (pointRow (rangeEnd (newRange e)) - pointRow (rangeEnd (oldRange e))))
     \<lparr>tokenizedLines :=
        spliceWithArray (tokenizedLines tb) (pointRow (rangeStart (oldRange e)))
          (pointRow (rangeEnd (oldRange e)) - pointRow (rangeStart (oldRange e)) + 1)
          (replicate (nat (pointRow (rangeEnd (newRange e)) - pointRow (rangeStart (newRange e)) + 1)) None)\<rparr>"
  using assms
  by (simp add: bufferDidChange_def Let_def updateInvalidRows_fields)

lemma bufferDidChange_emits:
  "emitted (bufferDidChange tb e) = emitted tb
   \<and> fullyTokenized (bufferDidChange tb e) = fullyTokenized tb"
proof (cases "largeFileMode tb \<or> name (grammar tb) = ''Null Grammar''")
  case True
  show ?thesis
    by (simp add: bufferDidChange_inactive[OF True] updateInvalidRows_fields)
next
  case False
  then show ?thesis
    unfolding bufferDidChange_def Let_def
    by (simp add: updateInvalidRows_fields split_beta invalidateRow_fields
        buildTokenizedLinesForRows_fields)
qed

lemma stackForRow_cong:
  "tokenizedLines tb' = tokenizedLines tb \<Longrightarrow> stackForRow tb' r = stackForRow tb r"
  by (simp add: stackForRow_def)

text \<open>
  Claim C7. Outside large-file mode and the null grammar, \<^verbatim>\<open>bufferDidChange\<close> rebuilds rows
  \<open>start\<close> to \<open>end + delta\<close> and then invalidates row \<open>end + delta + 1\<close> if and only if the new
  rule stack at row \<open>end + delta\<close> is there and differs from the rule stack that row \<open>end\<close>
  had before the splice. The invalid rows afterwards are the rebased ones, the row
  \<open>start + chunkSize\<close> when the rebuilt rows reach it, and row \<open>end + delta + 1\<close> once more
  exactly under that condition.
\<close>

theorem bufferDidChange_spill:
  assumes "\<not> largeFileMode tb" and "name (grammar tb) \<noteq> ''Null Grammar''"
    and "start = pointRow (rangeStart (oldRange e))"
    and "end = pointRow (rangeEnd (oldRange e))"
    and "delta = pointRow (rangeEnd (newRange e)) - pointRow (rangeEnd (oldRange e))"
  shows "mset (invalidRows (bufferDidChange tb e)) =
      mset (invalidRows (updateInvalidRows tb start end delta))
      + (if end + delta \<ge> start + chunkSize tb then {#start + chunkSize tb#} else {#})
      + (if stackForRow (bufferDidChange tb e) (end + delta) \<noteq> None
            \<and> stackForRow (bufferDidChange tb e) (end + delta) \<noteq> stackForRow tb end
         then {#end + delta + 1#} else {#})"
proof -
  let ?start = "pointRow (rangeStart (oldRange e))"
  let ?end = "pointRow (rangeEnd (oldRange e))"
  let ?delta = "pointRow (rangeEnd (newRange e)) - pointRow (rangeEnd (oldRange e))"
  define tb1 where
    "tb1 = updateInvalidRows (tb\<lparr>changeCount := bufferChangeCount (buffer tb)\<rparr>) ?start ?end ?delta"
  define built where "built = buildTokenizedLinesForRows tb1 ?start (?end + ?delta)
      (stackForRow tb1 (?start - 1)) (openScopesForRow tb1 ?start)"
  define tb3 where "tb3 = (snd built)\<lparr>tokenizedLines :=
      spliceWithArray (tokenizedLines (snd built)) ?start (?end - ?start + 1) (fst built)\<rparr>"
  define spill where "spill \<longleftrightarrow> stackForRow tb3 (?end + ?delta) \<noteq> None
      \<and> stackForRow tb3 (?end + ?delta) \<noteq> stackForRow tb1 ?end"
  have eq: "bufferDidChange tb e = (if spill then invalidateRow tb3 (?end + ?delta + 1) else tb3)"
    unfolding bufferDidChange_def Let_def spill_def tb3_def built_def tb1_def
    using assms(1,2) by (simp add: split_beta updateInvalidRows_fields)
  have s1: "stackForRow tb1 ?end = stackForRow tb ?end"
    by (rule stackForRow_cong) (simp add: tb1_def updateInvalidRows_fields)
  have s3: "stackForRow (bufferDidChange tb e) (?end + ?delta) = stackForRow tb3 (?end + ?delta)"
    by (rule stackForRow_cong) (simp add: eq invalidateRow_fields)
  have i1: "invalidRows tb1 = invalidRows (updateInvalidRows tb ?start ?end ?delta)"
    by (simp add: tb1_def updateInvalidRows_def)
  have c1: "chunkSize tb1 = chunkSize tb"
    by (simp add: tb1_def updateInvalidRows_fields)
  have i3: "mset (invalidRows tb3) = mset (invalidRows tb1)
      + (if ?end + ?delta \<ge> ?start + chunkSize tb then {#?start + chunkSize tb#} else {#})"
    by (simp add: tb3_def built_def buildTokenizedLinesForRows_fields c1)
  have "mset (invalidRows (bufferDidChange tb e)) =
      mset (invalidRows (updateInvalidRows tb ?start ?end ?delta))
      + (if ?end + ?delta \<ge> ?start + chunkSize tb then {#?start + chunkSize tb#} else {#})
      + (if stackForRow (bufferDidChange tb e) (?end + ?delta) \<noteq> None
            \<and> stackForRow (bufferDidChange tb e) (?end + ?delta) \<noteq> stackForRow tb ?end
         then {#?end + ?delta + 1#} else {#})"
    unfolding s3 using i3 by (simp add: eq s1 spill_def invalidateRow_fields i1)
  then show ?thesis
    unfolding assms(3,4,5) .
qed

theorem bufferDidChange_spill_witness:
  "\<not> largeFileMode (exampleTokenizedBuffer [''ab'', ''c''] [0] 20)
   \<and> name (grammar (exampleTokenizedBuffer [''ab'', ''c''] [0] 20)) \<noteq> ''Null Grammar''
   \<and> stackForRow (exampleTokenizedBuffer [''ab'', ''c''] [0] 20) 0 = None
   \<and> stackForRow (bufferDidChange (exampleTokenizedBuffer [''ab'', ''c''] [0] 20) (exampleEdit 0 0 0)) 0 = Some 2
   \<and> invalidRows (updateInvalidRows (exampleTokenizedBuffer [''ab'', ''c''] [0] 20) 0 0 0) = [1]
   \<and> mset (invalidRows (bufferDidChange (exampleTokenizedBuffer [''ab'', ''c''] [0] 20) (exampleEdit 0 0 0)))
       = {#1, 1#}
   \<and> invalidRows (bufferDidChange (exampleTokenizedBuffer [''ab'', ''c''] [0] 20) (exampleEdit 0 0 0)) = [1, 1]
   \<and> invalidRows (bufferDidChange
        (bufferDidChange (exampleTokenizedBuffer [''ab'', ''c''] [0] 20) (exampleEdit 0 0 0))
        (exampleEdit 0 0 0)) = [1, 1]"
proof -
  let ?tb = "exampleTokenizedBuffer [''ab'', ''c''] [0] 20"
  let ?e = "exampleEdit 0 0 0"
  have h1: "\<not> largeFileMode ?tb" by (simp add: exampleTokenizedBuffer_def)
  have h2: "name (grammar ?tb) \<noteq> ''Null Grammar''"
    by (simp add: exampleTokenizedBuffer_def exampleGrammar_def)
  have h3: "0 = pointRow (rangeStart (oldRange ?e))" by (simp add: exampleEdit_def)
  have h4: "0 = pointRow (rangeEnd (oldRange ?e))" by (simp add: exampleEdit_def)
  have h5: "0 = pointRow (rangeEnd (newRange ?e)) - pointRow (rangeEnd (oldRange ?e))"
    by (simp add: exampleEdit_def)
  have c: "chunkSize ?tb = 20" by (simp add: exampleTokenizedBuffer_def)
  have s0: "stackForRow ?tb 0 = None" by code_simp
  have s1: "stackForRow (bufferDidChange ?tb ?e) 0 = Some 2" by code_simp
  have u: "invalidRows (updateInvalidRows ?tb 0 0 0) = [1]" by code_simp
  have v1: "invalidRows (bufferDidChange ?tb ?e) = [1, 1]" by code_simp
  have v2: "invalidRows (bufferDidChange (bufferDidChange ?tb ?e) ?e) = [1, 1]" by code_simp
  have m: "mset (invalidRows (bufferDidChange ?tb ?e)) = {#1, 1#}"
    using bufferDidChange_spill[OF h1 h2 h3 h4 h5] by (simp add: c s0 s1 u)
  show ?thesis using h1 h2 s0 s1 u m v1 v2 by blast
qed

lemma bufferDidChange_inactive_fields:
  assumes "largeFileMode tb \<or> name (grammar tb) = ''Null Grammar''"
  shows "largeFileMode (bufferDidChange tb e) = largeFileMode tb"
    "grammar (bufferDidChange tb e) = grammar tb"
    "fullyTokenized (bufferDidChange tb e) = fullyTokenized tb"
    "invalidRows tb = [] \<Longrightarrow> invalidRows (bufferDidChange tb e) = []"
  by (simp_all add: bufferDidChange_inactive[OF assms] updateInvalidRows_fields)
     (simp add: updateInvalidRows_def)

lemma bufferDidChanges_inactive:
  assumes "largeFileMode tb \<or> name (grammar tb) = ''Null Grammar''" and "invalidRows tb = []"
  shows "invalidRows (bufferDidChanges tb edits) = []
    \<and> fullyTokenized (bufferDidChanges tb edits) = fullyTokenized tb"
  using assms
proof (induction edits arbitrary: tb)
  case Nil
  then show ?case by simp
next
  case (Cons edit edits)
  obtain b e where edit: "edit = (b, e)" by (cases edit)
  let ?tb = "tb\<lparr>buffer := b\<rparr>"
  have m: "largeFileMode ?tb \<or> name (grammar ?tb) = ''Null Grammar''"
    using Cons.prems(1) by simp
  have i: "invalidRows ?tb = []" using Cons.prems(2) by simp
  have "largeFileMode (bufferDidChange ?tb e) \<or> name (grammar (bufferDidChange ?tb e)) = ''Null Grammar''"
    using m by (simp add: bufferDidChange_inactive_fields(1,2)[OF m])
  moreover have "invalidRows (bufferDidChange ?tb e) = []"
    using bufferDidChange_inactive_fields(4)[OF m i] .
  ultimately show ?case
    using Cons.IH[of "bufferDidChange ?tb e"] bufferDidChange_inactive_fields(3)[OF m, of e]
    by (simp add: edit)
qed

text \<open>
  Claim C8, as the code has it. When the tokenized buffer is alive and in large-file mode,
  or alive with the null grammar, \<^verbatim>\<open>retokenizeLines\<close> makes \<^verbatim>\<open>fullyTokenized\<close> true at once,
  schedules no chunk and leaves \<^verbatim>\<open>invalidRows\<close> empty; after every run of buffer changes that
  follows, \<^verbatim>\<open>invalidRows\<close> is still empty and \<^verbatim>\<open>fullyTokenized\<close> still true.
\<close>

theorem retokenizeLines_inactive:
  assumes "alive tb" and "largeFileMode tb \<or> name (grammar tb) = ''Null Grammar''"
  shows "fullyTokenized (retokenizeLines tb) \<and> invalidRows (retokenizeLines tb) = []
    \<and> pendingChunk (retokenizeLines tb) = pendingChunk tb
    \<and> invalidRows (bufferDidChanges (retokenizeLines tb) edits) = []
    \<and> fullyTokenized (bufferDidChanges (retokenizeLines tb) edits)"
proof -
  have r: "retokenizeLines tb = markTokenizationComplete (resetLines tb)"
    using assms by (simp add: retokenizeLines_def Let_def resetLines_def)
  have f: "fullyTokenized (retokenizeLines tb)" "invalidRows (retokenizeLines tb) = []"
    "pendingChunk (retokenizeLines tb) = pendingChunk tb"
    "largeFileMode (retokenizeLines tb) \<or> name (grammar (retokenizeLines tb)) = ''Null Grammar''"
    using assms(2) by (simp_all add: r markTokenizationComplete_def resetLines_def Let_def)
  show ?thesis
    using f(1,2,3) bufferDidChanges_inactive[OF f(4) f(2), of edits] by simp
qed

theorem retokenizeLines_inactive_witness:
  "alive ((exampleTokenizedBuffer [''a'', ''b''] [0] 20)\<lparr>grammar := exampleNullGrammar\<rparr>)
   \<and> (largeFileMode ((exampleTokenizedBuffer [''a'', ''b''] [0] 20)\<lparr>grammar := exampleNullGrammar\<rparr>)
        \<or> name (grammar ((exampleTokenizedBuffer [''a'', ''b''] [0] 20)\<lparr>grammar := exampleNullGrammar\<rparr>))
            = ''Null Grammar'')
   \<and> fullyTokenized (retokenizeLines ((exampleTokenizedBuffer [''a'', ''b''] [0] 20)\<lparr>grammar := exampleNullGrammar\<rparr>))
   \<and> invalidRows (retokenizeLines ((exampleTokenizedBuffer [''a'', ''b''] [0] 20)\<lparr>grammar := exampleNullGrammar\<rparr>)) = []
   \<and> invalidRows (bufferDidChanges
        (retokenizeLines ((exampleTokenizedBuffer [''a'', ''b''] [0] 20)\<lparr>grammar := exampleNullGrammar\<rparr>))
        [(exampleBuffer [''a'', ''x'', ''b''], exampleEdit 0 0 1), (exampleBuffer [''b''], exampleEdit 0 1 0)]) = []
   \<and> length (tokenizedLines (bufferDidChanges
        (retokenizeLines ((exampleTokenizedBuffer [''a'', ''b''] [0] 20)\<lparr>grammar := exampleNullGrammar\<rparr>))
        [(exampleBuffer [''a'', ''x'', ''b''], exampleEdit 0 0 1), (exampleBuffer [''b''], exampleEdit 0 1 0)])) = 2"
proof -
  let ?tb = "(exampleTokenizedBuffer [''a'', ''b''] [0] 20)\<lparr>grammar := exampleNullGrammar\<rparr>"
  let ?edits = "[(exampleBuffer [''a'', ''x'', ''b''], exampleEdit 0 0 1), (exampleBuffer [''b''], exampleEdit 0 1 0)]"
  have h1: "alive ?tb" by (simp add: exampleTokenizedBuffer_def)
  have h2: "largeFileMode ?tb \<or> name (grammar ?tb) = ''Null Grammar''"
    by (simp add: exampleNullGrammar_def)
  have l: "length (tokenizedLines (bufferDidChanges (retokenizeLines ?tb) ?edits)) = 2"
    by code_simp
  show ?thesis
    using retokenizeLines_inactive[OF h1 h2, of ?edits] h1 h2 l by blast
qed

text \<open>
  Claim C8 as stated fails on a destroyed buffer: \<^verbatim>\<open>retokenizeLines\<close> returns at its first
  line when \<^verbatim>\<open>alive\<close> is false. A buffer that is destroyed before its tokenization is
  complete and then given the null grammar keeps \<^verbatim>\<open>fullyTokenized\<close> false and its invalid row.
\<close>

theorem retokenizeLines_destroyed_counterexample:
  "name (grammar ((destroy (exampleTokenizedBuffer [''a'', ''b''] [0] 20))\<lparr>grammar := exampleNullGrammar\<rparr>))
     = ''Null Grammar''
   \<and> \<not> fullyTokenized (retokenizeLines
        ((destroy (exampleTokenizedBuffer [''a'', ''b''] [0] 20))\<lparr>grammar := exampleNullGrammar\<rparr>))
   \<and> invalidRows (retokenizeLines
        ((destroy (exampleTokenizedBuffer [''a'', ''b''] [0] 20))\<lparr>grammar := exampleNullGrammar\<rparr>)) = [0]"
  by (simp add: retokenizeLines_def destroy_def exampleTokenizedBuffer_def exampleNullGrammar_def)

section \<open>The completion event\<close>

lemma transitions_append:
  "transitions (as @ b # cs) = transitions (as @ [b]) + transitions (b # cs)"
  by (induction as rule: transitions.induct) auto

lemma markTokenizationComplete_emits:
  "fullyTokenized (markTokenizationComplete tb)
   \<and> didTokenizeCount (markTokenizationComplete tb) =
       didTokenizeCount tb + (if fullyTokenized tb then 0 else 1)"
  by (simp add: markTokenizationComplete_def didTokenizeCount_def Let_def)

lemma tokenizeNextChunk_emits:
  "\<exists>tb'. tokenizeNextChunk tb = Some tb'
     \<and> didTokenizeCount tb' = didTokenizeCount tb + transitions [fullyTokenized tb, fullyTokenized tb']"
proof -
  obtain tb1 rem' where r: "tokenizeRegions tb (chunkSize tb) = Some (tb1, rem')"
    and p: "regionsPost tb (chunkSize tb) tb1 rem'"
    using tokenizeRegions_total[of tb "chunkSize tb"] by blast
  have fp: "fixedPart tb1 = fixedPart tb" using p by (simp add: regionsPost_def)
  obtain es where es: "emitted tb1 = emitted tb @ es" "DidTokenize \<notin> set es"
    using p by (auto simp: regionsPost_def)
  have c1: "didTokenizeCount tb1 = didTokenizeCount tb"
    using es by (simp add: didTokenizeCount_def)
  have f1: "fullyTokenized tb1 = fullyTokenized tb" using fixedPart_fields(4)[OF fp] .
  show ?thesis
  proof (cases "firstInvalidRow tb1 \<noteq> None")
    case True
    then have "tokenizeNextChunk tb = Some (tokenizeInBackground tb1)"
      by (simp add: tokenizeNextChunk_def r)
    moreover have "didTokenizeCount (tokenizeInBackground tb1) = didTokenizeCount tb1"
      "fullyTokenized (tokenizeInBackground tb1) = fullyTokenized tb1"
      by (simp_all add: tokenizeInBackground_def didTokenizeCount_def)
    ultimately show ?thesis using c1 f1 by simp
  next
    case False
    then have "tokenizeNextChunk tb = Some (markTokenizationComplete tb1)"
      by (simp add: tokenizeNextChunk_def r)
    then show ?thesis
      using markTokenizationComplete_emits[of tb1] c1 f1 by simp
  qed
qed

lemma execute_emits:
  "\<exists>states. execute operation tb = Some states \<and> states \<noteq> []
     \<and> didTokenizeCount (last states) =
         didTokenizeCount tb + transitions (map fullyTokenized (tb # states))"
proof (cases operation)
  case Retokenize
  show ?thesis
  proof (cases "alive tb")
    case False
    with Retokenize show ?thesis by simp
  next
    case True
    have r: "didTokenizeCount (resetLines tb) = didTokenizeCount tb" "\<not> fullyTokenized (resetLines tb)"
      by (simp_all add: resetLines_def didTokenizeCount_def)
    have "didTokenizeCount (retokenizeLines tb) =
        didTokenizeCount tb + (if fullyTokenized (retokenizeLines tb) then 1 else 0)"
      using True markTokenizationComplete_emits[of "resetLines tb"] r
      by (auto simp: retokenizeLines_def Let_def invalidateRow_def tokenizeInBackground_def
          didTokenizeCount_def resetLines_def)
    with True Retokenize r show ?thesis by simp
  qed
next
  case (SetVisible v)
  then show ?thesis
    by (simp add: setVisible_def tokenizeInBackground_def didTokenizeCount_def Let_def)
next
  case RunDeferredChunk
  show ?thesis
  proof (cases "alive tb \<and> bufferIsAlive (buffer tb)")
    case True
    then have "deferredChunk tb = tokenizeNextChunk (tb\<lparr>pendingChunk := False\<rparr>)"
      by (simp add: deferredChunk_def Let_def)
    with tokenizeNextChunk_emits[of "tb\<lparr>pendingChunk := False\<rparr>"] RunDeferredChunk
    show ?thesis by (auto simp: didTokenizeCount_def)
  next
    case False
    then have "deferredChunk tb = Some (tb\<lparr>pendingChunk := False\<rparr>)"
      by (auto simp add: deferredChunk_def Let_def)
    with RunDeferredChunk show ?thesis by (simp add: didTokenizeCount_def)
  qed
next
  case NextChunk
  with tokenizeNextChunk_emits[of tb] show ?thesis by auto
next
  case (BufferDidChange b e)
  with bufferDidChange_emits[of "tb\<lparr>buffer := b\<rparr>" e] show ?thesis
    by (simp add: didTokenizeCount_def)
next
  case MarkTokenizationComplete
  with markTokenizationComplete_emits[of tb] show ?thesis by simp
next
  case (Invalidate row)
  then show ?thesis
    by (simp add: invalidateRow_def tokenizeInBackground_def didTokenizeCount_def)
next
  case (Validate row)
  then show ?thesis
    by (simp add: validateRow_def didTokenizeCount_def)
next
  case (LineForRow row)
  then show ?thesis
    by (simp add: tokenizedLineForRow_def didTokenizeCount_def Let_def split: option.splits)
next
  case Destroy
  then show ?thesis
    by (simp add: destroy_def didTokenizeCount_def)
qed

lemma executeAll_head:
  "executeAll operations tb = Some states \<Longrightarrow> states \<noteq> [] \<and> hd states = tb"
  by (cases operations) (auto split: option.splits)

text \<open>
  Claim C9. In every run of operations, every operation returns, and the number of
  \<^verbatim>\<open>did-tokenize\<close> events emitted is the number of times the \<^verbatim>\<open>fullyTokenized\<close> flag goes from
  false to true. \<^verbatim>\<open>markTokenizationComplete\<close> emits nothing when the flag is true already,
  and emits the event once and sets the flag when it is false.
\<close>

theorem didTokenize_once_per_transition:
  "(\<exists>states. executeAll operations tb = Some states \<and> states \<noteq> [] \<and> hd states = tb
      \<and> didTokenizeCount (last states) =
          didTokenizeCount tb + transitions (map fullyTokenized states))
   \<and> (fullyTokenized tb \<longrightarrow> emitted (markTokenizationComplete tb) = emitted tb)
   \<and> (\<not> fullyTokenized tb \<longrightarrow>
        emitted (markTokenizationComplete tb) = emitted tb @ [DidTokenize]
        \<and> fullyTokenized (markTokenizationComplete tb))"
proof (intro conjI)
  show "\<exists>states. executeAll operations tb = Some states \<and> states \<noteq> [] \<and> hd states = tb
      \<and> didTokenizeCount (last states) =
          didTokenizeCount tb + transitions (map fullyTokenized states)"
  proof (induction operations arbitrary: tb)
    case Nil
    show ?case by simp
  next
    case (Cons operation operations)
    obtain states where s: "execute operation tb = Some states" "states \<noteq> []"
      "didTokenizeCount (last states) =
         didTokenizeCount tb + transitions (map fullyTokenized (tb # states))"
      using execute_emits[of operation tb] by blast
    obtain rest where r: "executeAll operations (last states) = Some rest" "rest \<noteq> []"
      "hd rest = last states"
      "didTokenizeCount (last rest) =
         didTokenizeCount (last states) + transitions (map fullyTokenized rest)"
      using Cons.IH[of "last states"] by blast
    obtain rest' where rest: "rest = last states # rest'"
      using r(2,3) by (cases rest) auto
    have whole: "map fullyTokenized (tb # butlast states) @ [fullyTokenized (last states)] =
        map fullyTokenized (tb # states)"
    proof -
      have "map fullyTokenized (tb # butlast states) @ [fullyTokenized (last states)] =
          map fullyTokenized ((tb # butlast states) @ [last states])"
        by simp
      also have "(tb # butlast states) @ [last states] = tb # states"
        using s(2) by simp
      finally show ?thesis .
    qed
    have "transitions (map fullyTokenized (tb # butlast states @ rest)) =
          transitions (map fullyTokenized (tb # butlast states)
            @ fullyTokenized (last states) # map fullyTokenized rest')"
      by (simp add: rest)
    also have "\<dots> = transitions (map fullyTokenized (tb # butlast states) @ [fullyTokenized (last states)])
          + transitions (fullyTokenized (last states) # map fullyTokenized rest')"
      by (rule transitions_append)
    also have "\<dots> = transitions (map fullyTokenized (tb # states))
          + transitions (map fullyTokenized rest)"
      by (simp only: whole) (simp add: rest)
    finally have "transitions (map fullyTokenized (tb # butlast states @ rest)) =
          transitions (map fullyTokenized (tb # states)) + transitions (map fullyTokenized rest)" .
    moreover have "executeAll (operation # operations) tb = Some (tb # butlast states @ rest)"
      using s r by simp
    moreover have "last (tb # butlast states @ rest) = last rest"
      using r(2) by simp
    ultimately show ?case using s r by simp
  qed
qed (simp_all add: markTokenizationComplete_def Let_def)

theorem didTokenize_once_per_transition_witness:
  "(\<exists>states. executeAll [NextChunk, NextChunk, MarkTokenizationComplete, Retokenize, NextChunk, NextChunk]
                 (exampleTokenizedBuffer [''a'', ''bc'', ''d''] [0] 2) = Some states
       \<and> didTokenizeCount (last states) =
           didTokenizeCount (exampleTokenizedBuffer [''a'', ''bc'', ''d''] [0] 2)
             + transitions (map fullyTokenized states))
   \<and> map_option (\<lambda>states. (map fullyTokenized states, didTokenizeCount (last states)))
        (executeAll [NextChunk, NextChunk, MarkTokenizationComplete, Retokenize, NextChunk, NextChunk]
           (exampleTokenizedBuffer [''a'', ''bc'', ''d''] [0] 2))
       = Some ([False, False, True, True, False, False, False, True], 2)
   \<and> \<not> fullyTokenized (exampleTokenizedBuffer [''a'', ''bc'', ''d''] [0] 2)
   \<and> emitted (markTokenizationComplete (exampleTokenizedBuffer [''a'', ''bc'', ''d''] [0] 2)) = [DidTokenize]
   \<and> fullyTokenized (markTokenizationComplete (exampleTokenizedBuffer [''a'', ''bc'', ''d''] [0] 2))
   \<and> emitted (markTokenizationComplete
                 (markTokenizationComplete (exampleTokenizedBuffer [''a'', ''bc'', ''d''] [0] 2)))
       = [DidTokenize]"
proof -
  let ?tb = "exampleTokenizedBuffer [''a'', ''bc'', ''d''] [0] 2"
  let ?ops = "[NextChunk, NextChunk, MarkTokenizationComplete, Retokenize, NextChunk, NextChunk]"
  have f: "\<not> fullyTokenized ?tb" and e: "emitted ?tb = []"
    by (simp_all add: exampleTokenizedBuffer_def)
  have v: "map_option (\<lambda>states. (map fullyTokenized states, didTokenizeCount (last states)))
        (executeAll ?ops ?tb) = Some ([False, False, True, True, False, False, False, True], 2)"
    by code_simp
  have a: "\<exists>states. executeAll ?ops ?tb = Some states
       \<and> didTokenizeCount (last states) =
           didTokenizeCount ?tb + transitions (map fullyTokenized states)"
    using didTokenize_once_per_transition[of ?ops ?tb] by blast
  have b: "emitted (markTokenizationComplete ?tb) = [DidTokenize]"
    "fullyTokenized (markTokenizationComplete ?tb)"
    using didTokenize_once_per_transition[of "[]" ?tb] f e by simp_all
  have c: "emitted (markTokenizationComplete (markTokenizationComplete ?tb)) = [DidTokenize]"
    using didTokenize_once_per_transition[of "[]" "markTokenizationComplete ?tb"] b by simp
  show ?thesis using a v f b c by blast
qed

section \<open>On-demand lines and queries\<close>

lemma lineAt_setLineAt: "0 \<le> row \<Longrightarrow> lineAt (setLineAt ls row v) row = Some v"
  by (auto simp: lineAt_def setLineAt_def nth_append)

text \<open>
  Claim C6, as the code has it. For a row of the buffer whose cache slot is empty,
  \<^verbatim>\<open>tokenizedLineForRow\<close> builds a placeholder line, stores it in the slot and returns it. Its
  tags are the start id of the grammar's root scope, one span tag equal to the length of
  the line (0 for an empty line), and the end id of the root scope; its open scopes are
  empty. When the slot holds a line, that line is returned and nothing changes.
\<close>

theorem tokenizedLineForRow_placeholder:
  assumes "0 \<le> row" and "row \<le> bufferLastRow (buffer tb)"
  shows "(lineAt (tokenizedLines tb) row = None \<longrightarrow>
           (\<exists>l tb'. tokenizedLineForRow tb row = (Some l, tb')
              \<and> tb' = tb\<lparr>tokenizedLines := setLineAt (tokenizedLines tb) row l\<rparr>
              \<and> lineAt (tokenizedLines tb') row = Some l
              \<and> tags l = [startIdForScope (grammar tb) (scopeName (grammar tb)),
                           int (length (lineForRow (buffer tb) row)),
                           endIdForScope (grammar tb) (scopeName (grammar tb))]
              \<and> openScopes l = [] \<and> lineText l = lineForRow (buffer tb) row
              \<and> lineEnding l = lineEndingForRow (buffer tb) row \<and> ruleStack l = None))
       \<and> (\<forall>l. lineAt (tokenizedLines tb) row = Some l \<longrightarrow> tokenizedLineForRow tb row = (Some l, tb))"
  using assms
  by (auto simp: tokenizedLineForRow_def Let_def lineAt_setLineAt placeholderLine_def)

theorem tokenizedLineForRow_placeholder_witness:
  "(0::int) \<le> 1 \<and> 1 \<le> bufferLastRow (buffer (exampleTokenizedBuffer [''abc'', ''de''] [] 20))
   \<and> lineAt (tokenizedLines (exampleTokenizedBuffer [''abc'', ''de''] [] 20)) 1 = None
   \<and> map_option tags (fst (tokenizedLineForRow (exampleTokenizedBuffer [''abc'', ''de''] [] 20) 1))
       = Some [- 1, 2, - 2]
   \<and> map_option openScopes (fst (tokenizedLineForRow (exampleTokenizedBuffer [''abc'', ''de''] [] 20) 1))
       = Some []
   \<and> lineAt (tokenizedLines (snd (tokenizedLineForRow (exampleTokenizedBuffer [''abc'', ''de''] [] 20) 1))) 1
       = fst (tokenizedLineForRow (exampleTokenizedBuffer [''abc'', ''de''] [] 20) 1)
   \<and> fst (tokenizedLineForRow (snd (tokenizedLineForRow (exampleTokenizedBuffer [''abc'', ''de''] [] 20) 1)) 1)
       = fst (tokenizedLineForRow (exampleTokenizedBuffer [''abc'', ''de''] [] 20) 1)"
proof -
  let ?tb = "exampleTokenizedBuffer [''abc'', ''de''] [] 20"
  have h1: "(0::int) \<le> 1" by simp
  have h2: "1 \<le> bufferLastRow (buffer ?tb)"
    by (simp add: exampleTokenizedBuffer_def exampleBuffer_def bufferLastRow_def)
  have n: "lineAt (tokenizedLines ?tb) 1 = None"
    by (simp add: exampleTokenizedBuffer_def lineAt_def)
  obtain l tb' where r: "tokenizedLineForRow ?tb 1 = (Some l, tb')"
    and s: "lineAt (tokenizedLines tb') 1 = Some l"
    and t: "tags l = [startIdForScope (grammar ?tb) (scopeName (grammar ?tb)),
                      int (length (lineForRow (buffer ?tb) 1)),
                      endIdForScope (grammar ?tb) (scopeName (grammar ?tb))]"
    and o: "openScopes l = []"
    using tokenizedLineForRow_placeholder[OF h1 h2] n by blast
  have b: "buffer tb' = buffer ?tb"
    using r by (auto simp: tokenizedLineForRow_def Let_def split: if_splits option.splits)
  have t': "tags l = [- 1, 2, - 2]"
    using t by (simp add: exampleTokenizedBuffer_def exampleBuffer_def exampleGrammar_def)
  have again: "tokenizedLineForRow tb' 1 = (Some l, tb')"
    using tokenizedLineForRow_placeholder[of 1 tb'] h2 s b by simp
  show ?thesis
    using h1 h2 n r s t' o again by simp
qed

text \<open>
  Claim C6 as stated fails on an empty line: the span tag of the placeholder is the length
  of the line, which is 0 and not positive.
\<close>

theorem tokenizedLineForRow_empty_line_counterexample:
  "map_option tags (fst (tokenizedLineForRow (exampleTokenizedBuffer [''''] [] 20) 0)) = Some [- 1, 0, - 2]
   \<and> lineForRow (buffer (exampleTokenizedBuffer [''''] [] 20)) 0 = ''''
   \<and> \<not> (0 < (0::int))"
  by code_simp

text \<open>
  Claim C3, as the code has it. For a row outside the buffer, \<^verbatim>\<open>tokenizedLineForRow\<close> returns
  nothing and \<^verbatim>\<open>isFoldableCodeAtRow\<close> returns false, and neither throws or changes the state.
  \<^verbatim>\<open>tokenForPosition\<close>, \<^verbatim>\<open>tokenStartPositionForPosition\<close> and \<^verbatim>\<open>bufferRangeForScopeAtPosition\<close>
  use the line that \<^verbatim>\<open>tokenizedLineForRow\<close> did not return, and throw a \<^verbatim>\<open>TypeError\<close>.
\<close>

theorem out_of_range_queries:
  assumes "row < 0 \<or> row > bufferLastRow (buffer tb)"
  shows "tokenizedLineForRow tb row = (None, tb)
    \<and> isFoldableCodeAtRow isComment tb row = False
    \<and> tokenForPosition tokenAtBufferColumn tb \<lparr>pointRow = row, pointColumn = col\<rparr> = (Inl TypeError, tb)
    \<and> tokenStartPositionForPosition tokenStartColumnForBufferColumn tb
         \<lparr>pointRow = row, pointColumn = col\<rparr> = (Inl TypeError, tb)
    \<and> bufferRangeForScopeAtPosition tb selector \<lparr>pointRow = row, pointColumn = col\<rparr> = (Inl TypeError, tb)"
proof -
  have t: "tokenizedLineForRow tb row = (None, tb)"
    using assms by (auto simp: tokenizedLineForRow_def)
  show ?thesis
    using assms
    by (auto simp: t isFoldableCodeAtRow_def tokenForPosition_def tokenStartPositionForPosition_def
        bufferRangeForScopeAtPosition_def)
qed

theorem out_of_range_queries_witness:
  "(2 < (0::int) \<or> 2 > bufferLastRow (buffer (exampleTokenizedBuffer [''abc'', ''de''] [] 20)))
   \<and> tokenizedLineForRow (exampleTokenizedBuffer [''abc'', ''de''] [] 20) 2
       = (None, exampleTokenizedBuffer [''abc'', ''de''] [] 20)
   \<and> isFoldableCodeAtRow (\<lambda>l. False) (exampleTokenizedBuffer [''abc'', ''de''] [] 20) 2 = False
   \<and> tokenForPosition (\<lambda>l c. c) (exampleTokenizedBuffer [''abc'', ''de''] [] 20)
        \<lparr>pointRow = 2, pointColumn = 0\<rparr> = (Inl TypeError, exampleTokenizedBuffer [''abc'', ''de''] [] 20)
   \<and> tokenStartPositionForPosition (\<lambda>l c. c) (exampleTokenizedBuffer [''abc'', ''de''] [] 20)
        \<lparr>pointRow = 2, pointColumn = 0\<rparr> = (Inl TypeError, exampleTokenizedBuffer [''abc'', ''de''] [] 20)
   \<and> bufferRangeForScopeAtPosition (exampleTokenizedBuffer [''abc'', ''de''] [] 20) ''.source''
        \<lparr>pointRow = 2, pointColumn = 0\<rparr> = (Inl TypeError, exampleTokenizedBuffer [''abc'', ''de''] [] 20)"
proof -
  let ?tb = "exampleTokenizedBuffer [''abc'', ''de''] [] 20"
  have h: "2 < (0::int) \<or> 2 > bufferLastRow (buffer ?tb)"
    by (simp add: exampleTokenizedBuffer_def exampleBuffer_def bufferLastRow_def)
  show ?thesis
    using out_of_range_queries[OF h, of "\<lambda>l. False" "\<lambda>l c. c" 0 "\<lambda>l c. c" "''.source''"] h
    by blast
qed

text \<open>
  Claim C3 as stated fails for the three position queries: on a row outside the buffer
  each of them throws.
\<close>

theorem out_of_range_query_throws_counterexample:
  "fst (tokenForPosition (\<lambda>l c. c) (exampleTokenizedBuffer [''abc'', ''de''] [] 20)
          \<lparr>pointRow = 2, pointColumn = 0\<rparr>) = Inl TypeError
   \<and> fst (tokenStartPositionForPosition (\<lambda>l c. c) (exampleTokenizedBuffer [''abc'', ''de''] [] 20)
          \<lparr>pointRow = - 1, pointColumn = 0\<rparr>) = Inl TypeError
   \<and> fst (bufferRangeForScopeAtPosition (exampleTokenizedBuffer [''abc'', ''de''] [] 20) ''.source''
          \<lparr>pointRow = 2, pointColumn = 0\<rparr>) = Inl TypeError"
  by (simp add: tokenForPosition_def tokenStartPositionForPosition_def
      bufferRangeForScopeAtPosition_def tokenizedLineForRow_def exampleTokenizedBuffer_def
      exampleBuffer_def bufferLastRow_def)

end
